theory Spec2Isabelle
  imports Main "HOL-Library.Word"
begin

unbundle bit_operations_syntax

section \<open>Buffers, cursors and failures\<close>

text \<open>
  A C character buffer is the list of the bytes it physically holds; a cursor into it is an
  index. A store through a cursor that lies outside the buffer is the failure
  \<open>Overrun\<close>, a load from a byte sequence past its end is \<open>OutOfBounds\<close>,
  \<open>REPORT_DISSECTOR_BUG\<close> does not return and is the failure \<open>DissectorBug\<close> with its
  message, and a shift by an amount that is negative or not less than the width of the
  shifted type is \<open>UndefinedShift\<close> with that amount.
\<close>

datatype error = Overrun | OutOfBounds | DissectorBug string | UndefinedShift int

type_synonym buffer = "char list"
type_synonym cursor = "buffer \<times> nat"

definition NUL :: char where
  "NUL = CHR 0x00"

definition bind_err :: "error + 'a \<Rightarrow> ('a \<Rightarrow> error + 'b) \<Rightarrow> error + 'b" where
  "bind_err m f = (case m of Inl e \<Rightarrow> Inl e | Inr x \<Rightarrow> f x)"

text \<open>The store \<open>buf[i] = c\<close>.\<close>

definition poke :: "buffer \<Rightarrow> nat \<Rightarrow> char \<Rightarrow> error + buffer" where
  "poke buf i c = (if i < length buf then Inr (buf[i := c]) else Inl Overrun)"

text \<open>The idiom \<open>*out++ = c\<close> of the forward writers.\<close>

definition put_fwd :: "char \<Rightarrow> cursor \<Rightarrow> error + cursor" where
  "put_fwd c st = (case st of (buf, p) \<Rightarrow>
     bind_err (poke buf p c) (\<lambda>buf'. Inr (buf', p + 1)))"

text \<open>The idiom \<open>*(--ptr) = c\<close> of the backward writers.\<close>

definition put_back :: "char \<Rightarrow> cursor \<Rightarrow> error + cursor" where
  "put_back c st = (case st of (buf, p) \<Rightarrow>
     if p = 0 then Inl Overrun
     else bind_err (poke buf (p - 1) c) (\<lambda>buf'. Inr (buf', p - 1)))"

text \<open>The C string a buffer holds: the bytes before the first terminator.\<close>

definition c_str :: "buffer \<Rightarrow> string" where
  "c_str buf = takeWhile (\<lambda>c. c \<noteq> NUL) buf"

text \<open>
  GLib's \<open>g_strlcpy (dest, src, dest_size)\<close>: with \<open>dest_size = 0\<close> nothing is stored;
  otherwise at most \<open>dest_size - 1\<close> characters of \<open>src\<close> are copied and a terminator
  follows them. The result is the length of \<open>src\<close>. The source string is given without
  its terminator.
\<close>

definition g_strlcpy :: "buffer \<Rightarrow> string \<Rightarrow> nat \<Rightarrow> error + (buffer \<times> nat)" where
  "g_strlcpy dest src dest_size =
     (if dest_size = 0 then Inr (dest, length src)
      else let k = min (length src) (dest_size - 1) in
        if k < length dest
        then Inr (take k src @ NUL # drop (k + 1) dest, length src)
        else Inl Overrun)"

text \<open>
  Capacities are C \<open>int\<close>s: 32-bit words read as two's complement. Handed to a
  \<open>gsize\<close> parameter, an \<open>int\<close> is sign-extended to the unsigned 64-bit type.
\<close>

type_synonym gint = "32 word"

definition gsize_of_int :: "gint \<Rightarrow> nat" where
  "gsize_of_int n = unat (scast n :: 64 word)"

definition BUF_TOO_SMALL_ERR :: string where
  "BUF_TOO_SMALL_ERR = ''[Buffer too small]''"

section \<open>Digit tables\<close>

text \<open>The table of the decimal texts of the byte values, in the rows of the source.\<close>

definition fast_strings :: "string list" where
  "fast_strings =
     [''0'', ''1'', ''2'', ''3'', ''4'', ''5'', ''6'', ''7''] @
     [''8'', ''9'', ''10'', ''11'', ''12'', ''13'', ''14'', ''15''] @
     [''16'', ''17'', ''18'', ''19'', ''20'', ''21'', ''22'', ''23''] @
     [''24'', ''25'', ''26'', ''27'', ''28'', ''29'', ''30'', ''31''] @
     [''32'', ''33'', ''34'', ''35'', ''36'', ''37'', ''38'', ''39''] @
     [''40'', ''41'', ''42'', ''43'', ''44'', ''45'', ''46'', ''47''] @
     [''48'', ''49'', ''50'', ''51'', ''52'', ''53'', ''54'', ''55''] @
     [''56'', ''57'', ''58'', ''59'', ''60'', ''61'', ''62'', ''63''] @
     [''64'', ''65'', ''66'', ''67'', ''68'', ''69'', ''70'', ''71''] @
     [''72'', ''73'', ''74'', ''75'', ''76'', ''77'', ''78'', ''79''] @
     [''80'', ''81'', ''82'', ''83'', ''84'', ''85'', ''86'', ''87''] @
     [''88'', ''89'', ''90'', ''91'', ''92'', ''93'', ''94'', ''95''] @
     [''96'', ''97'', ''98'', ''99'', ''100'', ''101'', ''102'', ''103''] @
     [''104'', ''105'', ''106'', ''107'', ''108'', ''109'', ''110'', ''111''] @
     [''112'', ''113'', ''114'', ''115'', ''116'', ''117'', ''118'', ''119''] @
     [''120'', ''121'', ''122'', ''123'', ''124'', ''125'', ''126'', ''127''] @
     [''128'', ''129'', ''130'', ''131'', ''132'', ''133'', ''134'', ''135''] @
     [''136'', ''137'', ''138'', ''139'', ''140'', ''141'', ''142'', ''143''] @
     [''144'', ''145'', ''146'', ''147'', ''148'', ''149'', ''150'', ''151''] @
     [''152'', ''153'', ''154'', ''155'', ''156'', ''157'', ''158'', ''159''] @
     [''160'', ''161'', ''162'', ''163'', ''164'', ''165'', ''166'', ''167''] @
     [''168'', ''169'', ''170'', ''171'', ''172'', ''173'', ''174'', ''175''] @
     [''176'', ''177'', ''178'', ''179'', ''180'', ''181'', ''182'', ''183''] @
     [''184'', ''185'', ''186'', ''187'', ''188'', ''189'', ''190'', ''191''] @
     [''192'', ''193'', ''194'', ''195'', ''196'', ''197'', ''198'', ''199''] @
     [''200'', ''201'', ''202'', ''203'', ''204'', ''205'', ''206'', ''207''] @
     [''208'', ''209'', ''210'', ''211'', ''212'', ''213'', ''214'', ''215''] @
     [''216'', ''217'', ''218'', ''219'', ''220'', ''221'', ''222'', ''223''] @
     [''224'', ''225'', ''226'', ''227'', ''228'', ''229'', ''230'', ''231''] @
     [''232'', ''233'', ''234'', ''235'', ''236'', ''237'', ''238'', ''239''] @
     [''240'', ''241'', ''242'', ''243'', ''244'', ''245'', ''246'', ''247''] @
     [''248'', ''249'', ''250'', ''251'', ''252'', ''253'', ''254'', ''255'']"

section \<open>Backward numeric writer\<close>

function uint_to_str_back_loop :: "cursor \<Rightarrow> 32 word \<Rightarrow> error + (cursor \<times> 32 word)" where
  "uint_to_str_back_loop st v =
     (if 10 \<le> v then
        let p = fast_strings ! (100 + unat (v mod 100));
            v' = v div 100
        in bind_err (put_back (p ! 2) st) (\<lambda>st.
           bind_err (put_back (p ! 1) st) (\<lambda>st.
           uint_to_str_back_loop st v'))
      else Inr (st, v))"
  by pat_completeness auto
termination
  by (relation "measure (\<lambda>(st, v). unat v)")
     (auto simp: unat_div word_le_nat_alt intro!: div_less_dividend)

declare uint_to_str_back_loop.simps [simp del]

definition uint_to_str_back :: "cursor \<Rightarrow> 32 word \<Rightarrow> error + cursor" where
  "uint_to_str_back st v =
     bind_err (if v = 0 then put_back CHR ''0'' st else Inr st) (\<lambda>st.
     bind_err (uint_to_str_back_loop st v) (\<lambda>r. case r of (st, v) \<Rightarrow>
       if v \<noteq> 0 then put_back (char_of (unat (v OR 48))) st else Inr st))"

function uint64_to_str_back_loop :: "cursor \<Rightarrow> 64 word \<Rightarrow> error + (cursor \<times> 64 word)" where
  "uint64_to_str_back_loop st v =
     (if 10 \<le> v then
        let p = fast_strings ! (100 + unat (v mod 100));
            v' = v div 100
        in bind_err (put_back (p ! 2) st) (\<lambda>st.
           bind_err (put_back (p ! 1) st) (\<lambda>st.
           uint64_to_str_back_loop st v'))
      else Inr (st, v))"
  by pat_completeness auto
termination
  by (relation "measure (\<lambda>(st, v). unat v)")
     (auto simp: unat_div word_le_nat_alt intro!: div_less_dividend)

declare uint64_to_str_back_loop.simps [simp del]

definition uint64_to_str_back :: "cursor \<Rightarrow> 64 word \<Rightarrow> error + cursor" where
  "uint64_to_str_back st v =
     bind_err (if v = 0 then put_back CHR ''0'' st else Inr st) (\<lambda>st.
     bind_err (uint64_to_str_back_loop st v) (\<lambda>r. case r of (st, v) \<Rightarrow>
       if v \<noteq> 0 then put_back (char_of (unat ((v AND 0xF) OR 48))) st else Inr st))"

section \<open>Canonical decimal text\<close>

text \<open>
  The canonical decimal text of a natural number: its digits, most significant first,
  without leading zeros, and \<open>0\<close> for zero. It is the reference the writers are compared
  with, and what the \<open>%u\<close> conversion of \<open>printf\<close> produces.
\<close>

definition digit_char :: "nat \<Rightarrow> char" where
  "digit_char d = ''0123456789'' ! d"

fun decimal_text :: "nat \<Rightarrow> string" where
  "decimal_text n = (if n < 10 then [digit_char n] else decimal_text (n div 10) @ [digit_char (n mod 10)])"

declare decimal_text.simps [simp del]

section \<open>Bounded buffer formatter\<close>

definition guint32_to_str_buf_len :: "32 word \<Rightarrow> nat" where
  "guint32_to_str_buf_len u =
     (if 1000000000 \<le> u then 10
      else if 100000000 \<le> u then 9
      else if 10000000 \<le> u then 8
      else if 1000000 \<le> u then 7
      else if 100000 \<le> u then 6
      else if 10000 \<le> u then 5
      else if 1000 \<le> u then 4
      else if 100 \<le> u then 3
      else if 10 \<le> u then 2
      else 1)"

definition guint64_to_str_buf_len :: "64 word \<Rightarrow> nat" where
  "guint64_to_str_buf_len u =
     (if 10000000000000000000 \<le> u then 20
      else if 1000000000000000000 \<le> u then 19
      else if 100000000000000000 \<le> u then 18
      else if 10000000000000000 \<le> u then 17
      else if 1000000000000000 \<le> u then 16
      else if 100000000000000 \<le> u then 15
      else if 10000000000000 \<le> u then 14
      else if 1000000000000 \<le> u then 13
      else if 100000000000 \<le> u then 12
      else if 10000000000 \<le> u then 11
      else if 1000000000 \<le> u then 10
      else if 100000000 \<le> u then 9
      else if 10000000 \<le> u then 8
      else if 1000000 \<le> u then 7
      else if 100000 \<le> u then 6
      else if 10000 \<le> u then 5
      else if 1000 \<le> u then 4
      else if 100 \<le> u then 3
      else if 10 \<le> u then 2
      else 1)"

text \<open>
  \<open>bp\<close> starts at \<open>&buf[str_len]\<close>; on the capacity failure the result of
  \<open>g_strlcpy\<close> is discarded.
\<close>

definition guint32_to_str_buf :: "32 word \<Rightarrow> buffer \<Rightarrow> gint \<Rightarrow> error + buffer" where
  "guint32_to_str_buf u buf buf_len =
     (let str_len = guint32_to_str_buf_len u + 1;
          bp = str_len
      in if sint buf_len < int str_len
         then bind_err (g_strlcpy buf BUF_TOO_SMALL_ERR (gsize_of_int buf_len)) (\<lambda>r. Inr (fst r))
         else bind_err (put_back NUL (buf, bp)) (\<lambda>st.
              bind_err (uint_to_str_back st u) (\<lambda>st. Inr (fst st))))"

definition guint64_to_str_buf :: "64 word \<Rightarrow> buffer \<Rightarrow> gint \<Rightarrow> error + buffer" where
  "guint64_to_str_buf u buf buf_len =
     (let str_len = guint64_to_str_buf_len u + 1;
          bp = str_len
      in if sint buf_len < int str_len
         then bind_err (g_strlcpy buf BUF_TOO_SMALL_ERR (gsize_of_int buf_len)) (\<lambda>r. Inr (fst r))
         else bind_err (put_back NUL (buf, bp)) (\<lambda>st.
              bind_err (uint64_to_str_back st u) (\<lambda>st. Inr (fst st))))"

section \<open>Duration formatter\<close>

text \<open>
  Modelled from the spec: \<open>wmem_strbuf_t\<close> and \<open>wmem_strbuf_append_printf\<close> (epan/wmem)
  are absent from the sources. A string buffer is the text it holds, and appending
  concatenates. The conversions used are \<open>%u\<close>, \<open>%03u\<close>, \<open>%09u\<close> and \<open>%s\<close>.
\<close>

type_synonym wmem_strbuf = string

definition printf_u :: "nat \<Rightarrow> string" where
  "printf_u n = decimal_text n"

definition printf_0u :: "nat \<Rightarrow> nat \<Rightarrow> string" where
  "printf_0u width n = replicate (width - length (decimal_text n)) CHR ''0'' @ decimal_text n"

definition PLURALIZE :: "nat \<Rightarrow> string" where
  "PLURALIZE n = (if 1 < n then ''s'' else [])"

definition COMMA :: "bool \<Rightarrow> string" where
  "COMMA do_it = (if do_it then '', '' else [])"

text \<open>GLib's limits of the 32-bit types.\<close>

definition G_MININT32 :: "32 word" where
  "G_MININT32 = 0x80000000"

definition G_MAXUINT32 :: "32 word" where
  "G_MAXUINT32 = 0xFFFFFFFF"

definition unsigned_time_secs_to_str_buf ::
    "32 word \<Rightarrow> 32 word \<Rightarrow> bool \<Rightarrow> wmem_strbuf \<Rightarrow> wmem_strbuf" where
  "unsigned_time_secs_to_str_buf time_val frac is_nsecs buf =
     (let do_comma = False;
          secs = unat (time_val mod 60);
          time_val = time_val div 60;
          mins = unat (time_val mod 60);
          time_val = time_val div 60;
          hours = unat (time_val mod 24);
          time_val = time_val div 24;
          (buf, do_comma) =
            (if time_val \<noteq> 0
             then (buf @ printf_u (unat time_val) @ '' day'' @ PLURALIZE (unat time_val), True)
             else (buf, do_comma));
          (buf, do_comma) =
            (if hours \<noteq> 0
             then (buf @ COMMA do_comma @ printf_u hours @ '' hour'' @ PLURALIZE hours, True)
             else (buf, do_comma));
          (buf, do_comma) =
            (if mins \<noteq> 0
             then (buf @ COMMA do_comma @ printf_u mins @ '' minute'' @ PLURALIZE mins, True)
             else (buf, do_comma))
      in if secs \<noteq> 0 \<or> frac \<noteq> 0 then
           (if frac \<noteq> 0 then
              (if is_nsecs
               then buf @ COMMA do_comma @ printf_u secs @ ''.'' @ printf_0u 9 (unat frac) @ '' seconds''
               else buf @ COMMA do_comma @ printf_u secs @ ''.'' @ printf_0u 3 (unat frac) @ '' seconds'')
            else buf @ COMMA do_comma @ printf_u secs @ '' second'' @ PLURALIZE secs)
         else buf)"

text \<open>The seconds are a \<open>gint32\<close>: a 32-bit word read as two's complement.\<close>

definition signed_time_secs_to_str_buf ::
    "32 word \<Rightarrow> 32 word \<Rightarrow> bool \<Rightarrow> wmem_strbuf \<Rightarrow> wmem_strbuf" where
  "signed_time_secs_to_str_buf time_val frac is_nsecs buf =
     (if sint time_val < 0 then
        (let buf = buf @ ''-'' in
         if time_val = G_MININT32
         then unsigned_time_secs_to_str_buf G_MAXUINT32 frac is_nsecs buf
         else unsigned_time_secs_to_str_buf (- time_val) frac is_nsecs buf)
      else unsigned_time_secs_to_str_buf time_val frac is_nsecs buf)"

section \<open>IPv6 address formatter\<close>

text \<open>
  GLib's \<open>g_snprintf (string, n, format, ...)\<close> is C99 \<open>vsnprintf\<close>: at most \<open>n - 1\<close>
  characters of the formatted text are stored, followed by a terminator (nothing when
  \<open>n = 0\<close>), and the result is the length of the whole formatted text, the terminator
  not counted. The formatted text is given; for the format \<open>%s%s\<close> it is the two strings
  joined.
\<close>

definition g_snprintf :: "buffer \<Rightarrow> nat \<Rightarrow> string \<Rightarrow> error + (buffer \<times> gint)" where
  "g_snprintf string n text =
     (if n = 0 then Inr (string, of_nat (length text))
      else let k = min (length text) (n - 1) in
        if k < length string
        then Inr (take k text @ NUL # drop (k + 1) string, of_nat (length text))
        else Inl Overrun)"

text \<open>
  Modelled from the spec: \<open>ws_inet_ntop6\<close> (wsutil) is absent from the sources. It is the
  system-level converter that gives the canonical text of a 16-byte address, and is a
  parameter of the two formatters. A prefix that is \<open>NULL\<close> is \<open>None\<close>.
\<close>

type_synonym ws_in6_addr = "8 word list"

definition ip6_to_str_buf_with_pfx ::
    "(ws_in6_addr \<Rightarrow> string) \<Rightarrow> ws_in6_addr \<Rightarrow> buffer \<Rightarrow> gint \<Rightarrow> string option
      \<Rightarrow> error + (buffer \<times> gint)" where
  "ip6_to_str_buf_with_pfx ws_inet_ntop6 addr buf buf_size prefix =
     (let prefix = (case prefix of None \<Rightarrow> [] | Some p \<Rightarrow> p) in
      bind_err (g_snprintf buf (gsize_of_int buf_size) (prefix @ ws_inet_ntop6 addr))
        (\<lambda>r. case r of (buf, bytes) \<Rightarrow>
           let len = bytes - 1 in
           if sint (buf_size - 1) < sint len
           then bind_err (g_strlcpy buf BUF_TOO_SMALL_ERR (gsize_of_int buf_size))
                  (\<lambda>r. case r of (buf, n) \<Rightarrow> Inr (buf, of_nat n))
           else Inr (buf, len)))"

definition ip6_to_str_buf ::
    "(ws_in6_addr \<Rightarrow> string) \<Rightarrow> ws_in6_addr \<Rightarrow> buffer \<Rightarrow> gint \<Rightarrow> error + (buffer \<times> gint)" where
  "ip6_to_str_buf ws_inet_ntop6 addr buf buf_size =
     bind_err (g_strlcpy buf (ws_inet_ntop6 addr) (gsize_of_int buf_size))
       (\<lambda>r. case r of (buf, n) \<Rightarrow>
          let len = (of_nat n :: gint) in
          if sint (buf_size - 1) < sint len
          then bind_err (g_strlcpy buf BUF_TOO_SMALL_ERR (gsize_of_int buf_size))
                 (\<lambda>r. case r of (buf, n) \<Rightarrow> Inr (buf, of_nat n))
          else Inr (buf, len))"

section \<open>Bit-field visualizer\<close>

text \<open>
  The three loops of \<open>decode_bits_in_field\<close>. The store \<open>str[str_p] = c; str_p++\<close> is the
  forward store on the cursor \<open>(str, str_p)\<close>. The counters \<open>bit\<close> (here \<open>bitno\<close>) and \<open>i\<close>
  never become negative and are natural numbers.
\<close>

function leading_dots :: "nat \<Rightarrow> nat \<Rightarrow> cursor \<Rightarrow> error + (cursor \<times> nat)" where
  "leading_dots lim bitno st =
     (if bitno < lim then
        bind_err (if bitno \<noteq> 0 \<and> bitno mod 4 = 0 then put_fwd CHR '' '' st else Inr st) (\<lambda>st.
        bind_err (put_fwd CHR ''.'' st) (\<lambda>st.
        leading_dots lim (bitno + 1) st))
      else Inr (st, bitno))"
  by pat_completeness auto
termination
  by (relation "measure (\<lambda>(lim, bitno, st). lim - bitno)") auto

declare leading_dots.simps [simp del]

function field_bits ::
    "nat \<Rightarrow> 64 word \<Rightarrow> nat \<Rightarrow> nat \<Rightarrow> 64 word \<Rightarrow> cursor \<Rightarrow> error + (cursor \<times> nat)" where
  "field_bits max_bits val i bitno msk st =
     (if i < max_bits then
        bind_err (if bitno \<noteq> 0 \<and> bitno mod 4 = 0 then put_fwd CHR '' '' st else Inr st) (\<lambda>st.
        bind_err (if bitno \<noteq> 0 \<and> bitno mod 8 = 0 then put_fwd CHR '' '' st else Inr st) (\<lambda>st.
        bind_err (put_fwd (if val AND msk \<noteq> 0 then CHR ''1'' else CHR ''0'') st) (\<lambda>st.
        field_bits max_bits val (i + 1) (bitno + 1) (drop_bit 1 msk) st)))
      else Inr (st, bitno))"
  by pat_completeness auto
termination
  by (relation "measure (\<lambda>(max_bits, val, i, bitno, msk, st). max_bits - i)") auto

declare field_bits.simps [simp del]

function trailing_dots :: "nat \<Rightarrow> cursor \<Rightarrow> error + cursor" where
  "trailing_dots bitno st =
     (if bitno mod 8 \<noteq> 0 then
        bind_err (if bitno \<noteq> 0 \<and> bitno mod 4 = 0 then put_fwd CHR '' '' st else Inr st) (\<lambda>st.
        bind_err (put_fwd CHR ''.'' st) (\<lambda>st.
        trailing_dots (bitno + 1) st))
      else Inr st)"
  by pat_completeness auto
termination
proof (relation "measure (\<lambda>(bitno, st). (8 - bitno mod 8) mod 8)")
  show "wf (measure (\<lambda>(bitno, st). (8 - bitno mod 8) mod 8))" by simp
next
  fix bitno :: nat and st :: cursor and x xa :: cursor
  assume nz: "bitno mod 8 \<noteq> 0"
  have lt: "bitno mod 8 < 8" by simp
  have "(8 - (bitno + 1) mod 8) mod 8 < (8 - bitno mod 8) mod 8"
  proof (cases "Suc (bitno mod 8) = 8")
    case True
    then have "bitno mod 8 = 7" by simp
    with True show ?thesis by (simp add: mod_Suc)
  next
    case False
    then have s: "(bitno + 1) mod 8 = Suc (bitno mod 8)" by (simp add: mod_Suc)
    have "8 - Suc (bitno mod 8) < 8 - bitno mod 8" using lt by simp
    moreover have "(8 - Suc (bitno mod 8)) mod 8 = 8 - Suc (bitno mod 8)" by simp
    moreover have "(8 - bitno mod 8) mod 8 = 8 - bitno mod 8" using nz by simp
    ultimately show ?thesis by (simp only: s)
  qed
  then show "((bitno + 1, xa), (bitno, st)) \<in> measure (\<lambda>(bitno, st). (8 - bitno mod 8) mod 8)"
    by simp
qed

declare trailing_dots.simps [simp del]

text \<open>
  C's \<open>x << n\<close> on a 64-bit unsigned operand: defined for an amount from 0 to 63, undefined
  for a negative amount and for one of 64 or more.
\<close>

definition shift_left_u64 :: "64 word \<Rightarrow> int \<Rightarrow> error + 64 word" where
  "shift_left_u64 x n =
     (if 0 \<le> n \<and> n < 64 then Inr (push_bit (nat n) x) else Inl (UndefinedShift n))"

text \<open>
  \<open>max_bits = MIN(64, no_of_bits)\<close> is an \<open>int\<close>. The mask (here \<open>msk\<close>) is the 64-bit
  constant 1 shifted left by \<open>max_bits - 1\<close>. The string comes zeroed from
  \<open>wmem_alloc0\<close> with 256 + 64 bytes.
\<close>

definition decode_bits_in_field :: "32 word \<Rightarrow> gint \<Rightarrow> 64 word \<Rightarrow> error + buffer" where
  "decode_bits_in_field bit_offset no_of_bits val =
     (let max_bits = min 64 (sint no_of_bits) in
      bind_err (shift_left_u64 1 (max_bits - 1)) (\<lambda>msk.
        let str = replicate (256 + 64) NUL
        in bind_err (leading_dots (unat (bit_offset AND 0x07)) 0 (str, 0)) (\<lambda>r. case r of (st, bitno) \<Rightarrow>
           bind_err (field_bits (nat max_bits) val 0 bitno msk st) (\<lambda>r. case r of (st, bitno) \<Rightarrow>
           bind_err (trailing_dots bitno st) (\<lambda>st. Inr (fst st))))))"

section \<open>Hex encoder\<close>

definition hex_digits :: string where
  "hex_digits = ''0123456789abcdef''"

definition low_nibble_of_octet_to_hex :: "8 word \<Rightarrow> char" where
  "low_nibble_of_octet_to_hex oct = hex_digits ! unat (oct AND 0xF)"

text \<open>
  The argument of \<open>byte_to_hex\<close> is a \<open>guint32\<close>; handing it to the \<open>guint8\<close> parameter
  of \<open>low_nibble_of_octet_to_hex\<close> keeps its low 8 bits.
\<close>

definition byte_to_hex :: "cursor \<Rightarrow> 32 word \<Rightarrow> error + cursor" where
  "byte_to_hex out dword =
     bind_err (put_fwd (low_nibble_of_octet_to_hex (ucast (drop_bit 4 dword))) out) (\<lambda>out.
     put_fwd (low_nibble_of_octet_to_hex (ucast dword)) out)"

definition word_to_hex :: "cursor \<Rightarrow> 16 word \<Rightarrow> error + cursor" where
  "word_to_hex out word =
     bind_err (byte_to_hex out (ucast (drop_bit 8 word))) (\<lambda>out.
     byte_to_hex out (ucast word))"

definition dword_to_hex :: "cursor \<Rightarrow> 32 word \<Rightarrow> error + cursor" where
  "dword_to_hex out dword =
     bind_err (word_to_hex out (ucast (drop_bit 16 dword))) (\<lambda>out.
     word_to_hex out (ucast dword))"

text \<open>
  A byte sequence is a pointer, \<open>None\<close> when it is \<open>NULL\<close>, to the bytes it points at,
  and a separate declared length. A read past the bytes is \<open>OutOfBounds\<close>.
\<close>

type_synonym bytes = "8 word list option"

function bytes_to_hexstr_loop :: "8 word list \<Rightarrow> nat \<Rightarrow> nat \<Rightarrow> cursor \<Rightarrow> error + cursor" where
  "bytes_to_hexstr_loop ad len i out =
     (if i < len then
        (if i < length ad
         then bind_err (byte_to_hex out (ucast (ad ! i))) (\<lambda>out.
              bytes_to_hexstr_loop ad len (i + 1) out)
         else Inl OutOfBounds)
      else Inr out)"
  by pat_completeness auto
termination
  by (relation "measure (\<lambda>(ad, len, i, out). len - i)") auto

declare bytes_to_hexstr_loop.simps [simp del]

definition bytes_to_hexstr :: "cursor \<Rightarrow> bytes \<Rightarrow> nat \<Rightarrow> error + cursor" where
  "bytes_to_hexstr out ad len =
     (case ad of
        None \<Rightarrow> Inl (DissectorBug ''Null pointer passed to bytes_to_hexstr()'')
      | Some bs \<Rightarrow> bytes_to_hexstr_loop bs len 0 out)"

function bytes_to_hexstr_punct_loop ::
    "8 word list \<Rightarrow> nat \<Rightarrow> char \<Rightarrow> nat \<Rightarrow> cursor \<Rightarrow> error + cursor" where
  "bytes_to_hexstr_punct_loop ad len punct i out =
     (if i < len then
        bind_err (put_fwd punct out) (\<lambda>out.
          if i < length ad
          then bind_err (byte_to_hex out (ucast (ad ! i))) (\<lambda>out.
               bytes_to_hexstr_punct_loop ad len punct (i + 1) out)
          else Inl OutOfBounds)
      else Inr out)"
  by pat_completeness auto
termination
  by (relation "measure (\<lambda>(ad, len, punct, i, out). len - i)") auto

declare bytes_to_hexstr_punct_loop.simps [simp del]

definition bytes_to_hexstr_punct :: "cursor \<Rightarrow> bytes \<Rightarrow> nat \<Rightarrow> char \<Rightarrow> error + cursor" where
  "bytes_to_hexstr_punct out ad len punct =
     (case ad of
        None \<Rightarrow> Inl (DissectorBug ''Null pointer passed to bytes_to_hexstr_punct()'')
      | Some bs \<Rightarrow>
          if 0 < length bs
          then bind_err (byte_to_hex out (ucast (bs ! 0))) (\<lambda>out.
               bytes_to_hexstr_punct_loop bs len punct 1 out)
          else Inl OutOfBounds)"

section \<open>Hex dump formatter\<close>

text \<open>
  Modelled from the spec: the scope-bound arena allocator (epan/wmem) is an external
  collaborator. A scope is given by the bytes its next block holds before anything is
  stored in it: \<open>wmem_alloc\<close> returns a block of the requested size with those bytes, and
  \<open>wmem_strdup\<close> a block that holds a copy of the string and its terminator.
\<close>

type_synonym wmem_allocator = "nat \<Rightarrow> char"

definition wmem_alloc :: "wmem_allocator \<Rightarrow> nat \<Rightarrow> buffer" where
  "wmem_alloc scope n = map scope [0..<n]"

definition wmem_strdup :: "wmem_allocator \<Rightarrow> string \<Rightarrow> buffer" where
  "wmem_strdup scope s = s @ [NUL]"

text \<open>
  Modelled from the spec: \<open>UTF8_HORIZONTAL_ELLIPSIS\<close> (wsutil/utf8_entities.h) is the
  single ellipsis glyph U+2026, which is three bytes in UTF-8.
\<close>

definition UTF8_HORIZONTAL_ELLIPSIS :: string where
  "UTF8_HORIZONTAL_ELLIPSIS = [CHR 0xE2, CHR 0x80, CHR 0xA6]"

text \<open>
  GLib's \<open>g_stpcpy (dest, src)\<close> copies the string and its terminator, and returns the
  position of the terminator it stored.
\<close>

definition g_stpcpy :: "cursor \<Rightarrow> string \<Rightarrow> error + cursor" where
  "g_stpcpy dest src = (case dest of (buf, p) \<Rightarrow>
     if p + length src < length buf
     then Inr (take p buf @ src @ NUL # drop (p + length src + 1) buf, p + length src)
     else Inl Overrun)"

definition MAX_BYTE_STR_LEN :: nat where
  "MAX_BYTE_STR_LEN = 72"

definition bytes_to_str :: "wmem_allocator \<Rightarrow> bytes \<Rightarrow> nat \<Rightarrow> error + buffer" where
  "bytes_to_str scope bd bd_len =
     (case bd of
        None \<Rightarrow> Inl (DissectorBug ''Null pointer passed to bytes_to_str()'')
      | Some _ \<Rightarrow>
          let cur = wmem_alloc scope (MAX_BYTE_STR_LEN + 3 + 1) in
          if bd_len = 0 then poke cur 0 NUL
          else
            let truncated = (MAX_BYTE_STR_LEN div 2 < bd_len);
                bd_len = (if truncated then MAX_BYTE_STR_LEN div 2 else bd_len)
            in bind_err (bytes_to_hexstr (cur, 0) bd bd_len) (\<lambda>cur_ptr.
               bind_err (if truncated then g_stpcpy cur_ptr UTF8_HORIZONTAL_ELLIPSIS
                         else Inr cur_ptr) (\<lambda>cur_ptr.
               poke (fst cur_ptr) (snd cur_ptr) NUL)))"

text \<open>The punctuation character \<open>'\<bslash>0'\<close> means no punctuation.\<close>

definition bytestring_to_str ::
    "wmem_allocator \<Rightarrow> bytes \<Rightarrow> nat \<Rightarrow> char \<Rightarrow> error + buffer" where
  "bytestring_to_str scope ad len punct =
     (if len = 0 then Inr (wmem_strdup scope [])
      else case ad of
        None \<Rightarrow> Inl (DissectorBug ''Null pointer passed to bytestring_to_str()'')
      | Some _ \<Rightarrow>
          if punct = NUL then bytes_to_str scope ad len
          else
            let buf = wmem_alloc scope (MAX_BYTE_STR_LEN + 3 + 1);
                truncated = (MAX_BYTE_STR_LEN div 3 < len);
                buflen = (if truncated then MAX_BYTE_STR_LEN div 3 else len)
            in bind_err (bytes_to_hexstr_punct (buf, 0) ad buflen punct) (\<lambda>buf_ptr.
               bind_err (if truncated
                         then bind_err (put_fwd punct buf_ptr) (\<lambda>buf_ptr.
                              g_stpcpy buf_ptr UTF8_HORIZONTAL_ELLIPSIS)
                         else Inr buf_ptr) (\<lambda>buf_ptr.
               poke (fst buf_ptr) (snd buf_ptr) NUL)))"

section \<open>GUID formatter\<close>

record e_guid_t =
  data1 :: "32 word"
  data2 :: "16 word"
  data3 :: "16 word"
  data4 :: "8 word list"

text \<open>
  Modelled from the spec: \<open>GUID_STR_LEN\<close> (epan/guid-utils.h) is the capacity the
  canonical text needs, 36 characters and the terminator.
\<close>

definition GUID_STR_LEN :: int where
  "GUID_STR_LEN = 37"

text \<open>
  \<open>&guid->data4[0]\<close> and \<open>&guid->data4[2]\<close> point at the array and at its third byte;
  on the capacity failure the result of \<open>g_strlcpy\<close> is discarded. The function returns
  \<open>buf\<close>.
\<close>

definition guid_to_str_buf :: "e_guid_t \<Rightarrow> buffer \<Rightarrow> gint \<Rightarrow> error + buffer" where
  "guid_to_str_buf guid buf buf_len =
     (if sint buf_len < GUID_STR_LEN
      then bind_err (g_strlcpy buf BUF_TOO_SMALL_ERR (gsize_of_int buf_len)) (\<lambda>r. Inr (fst r))
      else
        bind_err (dword_to_hex (buf, 0) (data1 guid)) (\<lambda>tempptr.
        bind_err (put_fwd CHR ''-'' tempptr) (\<lambda>tempptr.
        bind_err (word_to_hex tempptr (data2 guid)) (\<lambda>tempptr.
        bind_err (put_fwd CHR ''-'' tempptr) (\<lambda>tempptr.
        bind_err (word_to_hex tempptr (data3 guid)) (\<lambda>tempptr.
        bind_err (put_fwd CHR ''-'' tempptr) (\<lambda>tempptr.
        bind_err (bytes_to_hexstr tempptr (Some (data4 guid)) 2) (\<lambda>tempptr.
        bind_err (put_fwd CHR ''-'' tempptr) (\<lambda>tempptr.
        bind_err (bytes_to_hexstr tempptr (Some (drop 2 (data4 guid))) 6) (\<lambda>tempptr.
        poke (fst tempptr) (snd tempptr) NUL))))))))))"

section \<open>Reference notions\<close>

text \<open>
  A strict decimal parser, the buffer that holds a given text at a given offset, and the
  other notions the statements below compare the code with. They follow the
  specification's words.
\<close>

definition place :: "buffer \<Rightarrow> nat \<Rightarrow> string \<Rightarrow> buffer" where
  "place buf i s = take i buf @ s @ drop (i + length s) buf"

definition read_between :: "buffer \<Rightarrow> nat \<Rightarrow> nat \<Rightarrow> string" where
  "read_between buf p' p = take (p - p') (drop p' buf)"

definition is_digit :: "char \<Rightarrow> bool" where
  "is_digit c = (48 \<le> (of_char c :: nat) \<and> (of_char c :: nat) \<le> 57)"

definition digit_value :: "char \<Rightarrow> nat" where
  "digit_value c = of_char c - 48"

fun parse_decimal_from :: "nat \<Rightarrow> string \<Rightarrow> nat option" where
  "parse_decimal_from a [] = Some a"
| "parse_decimal_from a (c # cs) =
     (if is_digit c then parse_decimal_from (10 * a + digit_value c) cs else None)"

definition parse_decimal :: "string \<Rightarrow> nat option" where
  "parse_decimal s = (if s = [] then None else parse_decimal_from 0 s)"

text \<open>A buffer is terminated within a capacity when one of its first so many bytes is the terminator.\<close>

definition terminated_within :: "buffer \<Rightarrow> nat \<Rightarrow> bool" where
  "terminated_within buf n = (NUL \<in> set (take n buf))"

text \<open>The IPv6 loopback address, whose canonical text is \<open>::1\<close>.\<close>

definition loopback :: ws_in6_addr where
  "loopback = [0, 0, 0, 0, 0, 0, 0, 0, 0, 0, 0, 0, 0, 0, 0, 1]"

text \<open>
  The bit-field picture in the specification's words: positions 0 up to the next multiple
  of 8 at or after offset plus width; a dot at a position outside the field and the field's
  bits, most significant first, inside it; before a position that is a nonzero multiple of
  4 a space, and before a nonzero multiple of 8 one more.
\<close>

definition round_up_8 :: "nat \<Rightarrow> nat" where
  "round_up_8 n = (n + 7) div 8 * 8"

definition group_gap :: "nat \<Rightarrow> string" where
  "group_gap k = (if k \<noteq> 0 \<and> k mod 4 = 0 then '' '' else [])
               @ (if k \<noteq> 0 \<and> k mod 8 = 0 then '' '' else [])"

definition bit_glyph :: "nat \<Rightarrow> nat \<Rightarrow> 64 word \<Rightarrow> nat \<Rightarrow> char" where
  "bit_glyph off w v k =
     (if k < off \<or> off + w \<le> k then CHR ''.''
      else if bit v (w - 1 - (k - off)) then CHR ''1'' else CHR ''0'')"

definition bitfield_text :: "nat \<Rightarrow> nat \<Rightarrow> 64 word \<Rightarrow> string" where
  "bitfield_text off w v =
     concat (map (\<lambda>k. group_gap k @ [bit_glyph off w v k]) [0..<round_up_8 (off + w)])"

text \<open>A zeroed buffer of \<open>n\<close> bytes whose first bytes have been overwritten by \<open>w\<close>.\<close>

definition fresh :: "nat \<Rightarrow> string \<Rightarrow> buffer" where
  "fresh n w = w @ replicate (n - length w) NUL"

text \<open>
  Fixed-width lowercase hex text, most significant digit first; the hex dump of a byte
  sequence; the canonical text of a GUID, 8-4-4-4-12 hex digits separated by hyphens.
\<close>

fun hex_text :: "nat \<Rightarrow> nat \<Rightarrow> string" where
  "hex_text 0 n = []"
| "hex_text (Suc w) n = hex_text w (n div 16) @ [hex_digits ! (n mod 16)]"

definition hex_dump :: "8 word list \<Rightarrow> string" where
  "hex_dump bs = concat (map (\<lambda>b. hex_text 2 (unat b)) bs)"

definition guid_text :: "e_guid_t \<Rightarrow> string" where
  "guid_text g = hex_text 8 (unat (data1 g)) @ ''-'' @ hex_text 4 (unat (data2 g)) @ ''-''
               @ hex_text 4 (unat (data3 g)) @ ''-'' @ hex_dump (take 2 (data4 g)) @ ''-''
               @ hex_dump (drop 2 (data4 g))"

text \<open>A result that is the fatal contract-violation report.\<close>

definition is_dissector_bug :: "error + 'a \<Rightarrow> bool" where
  "is_dissector_bug r = (case r of Inl (DissectorBug msg) \<Rightarrow> True | _ \<Rightarrow> False)"

section \<open>Facts about buffers, the digit table and the backward writers\<close>

lemma fast_strings_pairs_all:
  "list_all (\<lambda>k. fast_strings ! (100 + k) = [CHR ''1'', digit_char (k div 10), digit_char (k mod 10)]) [0..<100]"
  by code_simp

lemma fast_strings_pairs:
  "k < 100 \<Longrightarrow> fast_strings ! (100 + k) = [CHR ''1'', digit_char (k div 10), digit_char (k mod 10)]"
  using fast_strings_pairs_all by (simp add: list_all_iff)

lemma poke_place: "i < length buf \<Longrightarrow> poke buf i c = Inr (place buf i [c])"
  by (simp add: poke_def place_def upd_conv_take_nth_drop)

lemma length_place: "i + length s \<le> length buf \<Longrightarrow> length (place buf i s) = length buf"
  by (simp add: place_def)

lemma place_place_before:
  "length s \<le> i \<Longrightarrow> i + length t \<le> length buf \<Longrightarrow>
   place (place buf i t) (i - length s) s = place buf (i - length s) (s @ t)"
  by (simp add: place_def min_def)

lemma place_place_after:
  "i + length s + length t \<le> length buf \<Longrightarrow>
   place (place buf i s) (i + length s) t = place buf i (s @ t)"
proof (cases "s = []")
  case True
  then show ?thesis by (simp add: place_def min_def)
next
  case False
  assume "i + length s + length t \<le> length buf"
  with False have "i < length buf" by (cases s) auto
  then show ?thesis by (simp add: place_def min_def ac_simps)
qed

lemma put_back_place:
  "0 < p \<Longrightarrow> p \<le> length buf \<Longrightarrow> put_back c (buf, p) = Inr (place buf (p - 1) [c], p - 1)"
  by (simp add: put_back_def poke_place bind_err_def)

lemma put_fwd_place:
  "p < length buf \<Longrightarrow> put_fwd c (buf, p) = Inr (place buf p [c], p + 1)"
  by (simp add: put_fwd_def poke_place bind_err_def)

lemma decimal_text_lt10: "n < 10 \<Longrightarrow> decimal_text n = [digit_char n]"
  by (simp add: decimal_text.simps)

lemma decimal_text_lt100:
  "10 \<le> n \<Longrightarrow> n < 100 \<Longrightarrow> decimal_text n = [digit_char (n div 10), digit_char (n mod 10)]"
  by (subst decimal_text.simps) (simp add: decimal_text_lt10)

lemma decimal_text_ge100:
  "100 \<le> n \<Longrightarrow>
   decimal_text n = decimal_text (n div 100) @ [digit_char (n mod 100 div 10), digit_char (n mod 100 mod 10)]"
proof -
  assume h: "100 \<le> n"
  have a: "decimal_text n = decimal_text (n div 10) @ [digit_char (n mod 10)]"
    using h by (subst decimal_text.simps) simp
  have h10: "10 \<le> n div 10" using h by arith
  have b: "decimal_text (n div 10) = decimal_text (n div 10 div 10) @ [digit_char (n div 10 mod 10)]"
    using h10 by (subst decimal_text.simps) simp
  have c: "n div 10 div 10 = n div 100" by (simp add: div_mult2_eq)
  have m: "n mod 100 = 10 * (n div 10 mod 10) + n mod 10"
    using mod_mult2_eq [of n 10 10] by simp
  have d: "n mod 100 div 10 = n div 10 mod 10" by (simp add: m)
  have e: "n mod 100 mod 10 = n mod 10" by (simp add: m)
  show ?thesis by (simp add: a b c d e)
qed

lemma decimal_text_nonempty: "decimal_text n \<noteq> []"
  by (subst decimal_text.simps) simp

lemma word_of_unat: "unat (v::'a::len word) = n \<Longrightarrow> v = of_nat n" by auto

lemma word_lt10_cases:
  fixes v :: "'a::len word"
  assumes "unat v < 10"
  shows "v = 0 \<or> v = 1 \<or> v = 2 \<or> v = 3 \<or> v = 4 \<or> v = 5 \<or> v = 6 \<or> v = 7 \<or> v = 8 \<or> v = 9"
proof -
  have "unat v = 0 \<or> unat v = 1 \<or> unat v = 2 \<or> unat v = 3 \<or> unat v = 4 \<or> unat v = 5
      \<or> unat v = 6 \<or> unat v = 7 \<or> unat v = 8 \<or> unat v = 9"
    using assms by arith
  then show ?thesis
    by (auto dest!: word_of_unat)
qed

lemma char_of_digit_codes:
  "char_of (48::nat) = CHR ''0''" "char_of (49::nat) = CHR ''1''" "char_of (50::nat) = CHR ''2''"
  "char_of (51::nat) = CHR ''3''" "char_of (52::nat) = CHR ''4''" "char_of (53::nat) = CHR ''5''"
  "char_of (54::nat) = CHR ''6''" "char_of (55::nat) = CHR ''7''" "char_of (56::nat) = CHR ''8''"
  "char_of (57::nat) = CHR ''9''"
  by code_simp+

lemma digit_or_48_32: "v < 10 \<Longrightarrow> char_of (unat ((v :: 32 word) OR 48)) = digit_char (unat v)"
proof -
  assume "v < 10"
  then have "unat v < 10" by (simp add: word_less_nat_alt)
  from word_lt10_cases [OF this] show ?thesis
    by (elim disjE) (simp_all add: digit_char_def char_of_digit_codes)
qed

lemma digit_or_48_64: "v < 10 \<Longrightarrow> char_of (unat (((v :: 64 word) AND 0xF) OR 48)) = digit_char (unat v)"
proof -
  assume "v < 10"
  then have "unat v < 10" by (simp add: word_less_nat_alt)
  from word_lt10_cases [OF this] show ?thesis
    by (elim disjE) (simp_all add: digit_char_def char_of_digit_codes)
qed

text \<open>What the loop and the final store of the writer leave, for a nonzero value.\<close>

lemma uint_to_str_back_loop_place:
  "v \<noteq> 0 \<Longrightarrow> length (decimal_text (unat v)) \<le> p \<Longrightarrow> p \<le> length buf \<Longrightarrow>
   bind_err (uint_to_str_back_loop (buf, p) v) (\<lambda>r. case r of (st, v) \<Rightarrow>
       if v \<noteq> 0 then put_back (char_of (unat (v OR 48))) st else Inr st)
   = Inr (place buf (p - length (decimal_text (unat v))) (decimal_text (unat v)),
          p - length (decimal_text (unat v)))"
proof (induction "unat v" arbitrary: v p buf rule: less_induct)
  case less
  show ?case
  proof (cases "10 \<le> v")
    case False
    then have lt: "v < 10" by simp
    then have un: "unat v < 10" by (simp add: word_less_nat_alt)
    have p0: "0 < p" using less.prems(2) un by (simp add: decimal_text_lt10)
    show ?thesis
      using False less.prems p0 un
      by (subst uint_to_str_back_loop.simps)
         (simp add: bind_err_def put_back_place digit_or_48_32 [OF lt] decimal_text_lt10)
  next
    case True
    then have ge: "10 \<le> unat v" by (simp add: word_le_nat_alt)
    define k where "k = unat v mod 100"
    define d where "d = [digit_char (k div 10), digit_char (k mod 10)]"
    have k: "unat (v mod 100) = k" by (simp add: k_def unat_mod)
    have klt: "k < 100" by (simp add: k_def)
    have q: "unat (v div 100) = unat v div 100" by (simp add: unat_div)
    have tab: "fast_strings ! (100 + k) = [CHR ''1'', digit_char (k div 10), digit_char (k mod 10)]"
      using klt by (rule fast_strings_pairs)
    have len2: "2 \<le> length (decimal_text (unat v))"
    proof (cases "unat v < 100")
      case True then show ?thesis using ge by (simp add: decimal_text_lt100)
    next
      case False then show ?thesis by (simp add: decimal_text_ge100)
    qed
    then have p2: "2 \<le> p" using less.prems(2) by simp
    have w1: "put_back (digit_char (k mod 10)) (buf, p) = Inr (place buf (p - 1) [digit_char (k mod 10)], p - 1)"
      using p2 less.prems(3) by (simp add: put_back_place)
    have w2: "put_back (digit_char (k div 10)) (place buf (p - 1) [digit_char (k mod 10)], p - 1)
              = Inr (place buf (p - 2) d, p - 2)"
    proof -
      have "put_back (digit_char (k div 10)) (place buf (p - 1) [digit_char (k mod 10)], p - 1)
            = Inr (place (place buf (p - 1) [digit_char (k mod 10)]) (p - 1 - 1) [digit_char (k div 10)], p - 1 - 1)"
        using p2 less.prems(3) by (intro put_back_place) (simp_all add: length_place)
      moreover have "place (place buf (p - 1) [digit_char (k mod 10)]) (p - 1 - length [digit_char (k div 10)]) [digit_char (k div 10)]
            = place buf (p - 1 - length [digit_char (k div 10)]) ([digit_char (k div 10)] @ [digit_char (k mod 10)])"
        using p2 less.prems(3) by (intro place_place_before) simp_all
      ultimately show ?thesis by (simp add: d_def numeral_2_eq_2)
    qed
    have step: "uint_to_str_back_loop (buf, p) v = uint_to_str_back_loop (place buf (p - 2) d, p - 2) (v div 100)"
      using True by (subst uint_to_str_back_loop.simps) (simp add: k tab w1 w2 bind_err_def Let_def del: One_nat_def)
    show ?thesis
    proof (cases "unat v < 100")
      case True
      then have "unat (v div 100) = 0" by (simp add: q)
      then have z: "v div 100 = 0" by (simp only: unat_eq_0)
      have "decimal_text (unat v) = d"
        using True ge by (simp add: decimal_text_lt100 d_def k_def)
      moreover have "length d = 2" by (simp add: d_def)
      ultimately show ?thesis
        by (simp add: step z uint_to_str_back_loop.simps [of _ 0] bind_err_def)
    next
      case False
      then have "unat (v div 100) \<noteq> 0" using ge by (simp add: q)
      then have nz: "v div 100 \<noteq> 0" by (simp only: unat_eq_0 not_False_eq_True)
      have dt: "decimal_text (unat v) = decimal_text (unat (v div 100)) @ d"
        using False by (simp add: decimal_text_ge100 d_def k_def q)
      have lt: "unat (v div 100) < unat v" using ge by (simp add: q)
      have l1: "length (decimal_text (unat (v div 100))) \<le> p - 2"
        using less.prems(2) by (simp add: dt d_def)
      have l2: "p - 2 \<le> length (place buf (p - 2) d)"
        using p2 less.prems(3) by (simp add: length_place d_def)
      have pp: "place (place buf (p - 2) d) (p - 2 - length (decimal_text (unat (v div 100)))) (decimal_text (unat (v div 100)))
                = place buf (p - 2 - length (decimal_text (unat (v div 100)))) (decimal_text (unat (v div 100)) @ d)"
        using l1 p2 less.prems(3) by (intro place_place_before) (simp_all add: d_def)
      have ld: "length d = 2" by (simp add: d_def)
      have ix: "p - length (decimal_text (unat (v div 100)) @ d) = p - 2 - length (decimal_text (unat (v div 100)))"
        by (simp add: ld)
      show ?thesis
        unfolding step dt ix less.hyps [OF lt nz l1 l2] pp ..
    qed
  qed
qed

text \<open>The same for the 64-bit writer.\<close>

lemma uint64_to_str_back_loop_place:
  "v \<noteq> 0 \<Longrightarrow> length (decimal_text (unat v)) \<le> p \<Longrightarrow> p \<le> length buf \<Longrightarrow>
   bind_err (uint64_to_str_back_loop (buf, p) v) (\<lambda>r. case r of (st, v) \<Rightarrow>
       if v \<noteq> 0 then put_back (char_of (unat ((v AND 0xF) OR 48))) st else Inr st)
   = Inr (place buf (p - length (decimal_text (unat v))) (decimal_text (unat v)),
          p - length (decimal_text (unat v)))"
proof (induction "unat v" arbitrary: v p buf rule: less_induct)
  case less
  show ?case
  proof (cases "10 \<le> v")
    case False
    then have lt: "v < 10" by simp
    then have un: "unat v < 10" by (simp add: word_less_nat_alt)
    have p0: "0 < p" using less.prems(2) un by (simp add: decimal_text_lt10)
    show ?thesis
      using False less.prems p0 un
      by (subst uint64_to_str_back_loop.simps)
         (simp add: bind_err_def put_back_place digit_or_48_64 [OF lt] decimal_text_lt10)
  next
    case True
    then have ge: "10 \<le> unat v" by (simp add: word_le_nat_alt)
    define k where "k = unat v mod 100"
    define d where "d = [digit_char (k div 10), digit_char (k mod 10)]"
    have k: "unat (v mod 100) = k" by (simp add: k_def unat_mod)
    have klt: "k < 100" by (simp add: k_def)
    have q: "unat (v div 100) = unat v div 100" by (simp add: unat_div)
    have tab: "fast_strings ! (100 + k) = [CHR ''1'', digit_char (k div 10), digit_char (k mod 10)]"
      using klt by (rule fast_strings_pairs)
    have len2: "2 \<le> length (decimal_text (unat v))"
    proof (cases "unat v < 100")
      case True then show ?thesis using ge by (simp add: decimal_text_lt100)
    next
      case False then show ?thesis by (simp add: decimal_text_ge100)
    qed
    then have p2: "2 \<le> p" using less.prems(2) by simp
    have w1: "put_back (digit_char (k mod 10)) (buf, p) = Inr (place buf (p - 1) [digit_char (k mod 10)], p - 1)"
      using p2 less.prems(3) by (simp add: put_back_place)
    have w2: "put_back (digit_char (k div 10)) (place buf (p - 1) [digit_char (k mod 10)], p - 1)
              = Inr (place buf (p - 2) d, p - 2)"
    proof -
      have "put_back (digit_char (k div 10)) (place buf (p - 1) [digit_char (k mod 10)], p - 1)
            = Inr (place (place buf (p - 1) [digit_char (k mod 10)]) (p - 1 - 1) [digit_char (k div 10)], p - 1 - 1)"
        using p2 less.prems(3) by (intro put_back_place) (simp_all add: length_place)
      moreover have "place (place buf (p - 1) [digit_char (k mod 10)]) (p - 1 - length [digit_char (k div 10)]) [digit_char (k div 10)]
            = place buf (p - 1 - length [digit_char (k div 10)]) ([digit_char (k div 10)] @ [digit_char (k mod 10)])"
        using p2 less.prems(3) by (intro place_place_before) simp_all
      ultimately show ?thesis by (simp add: d_def numeral_2_eq_2)
    qed
    have step: "uint64_to_str_back_loop (buf, p) v = uint64_to_str_back_loop (place buf (p - 2) d, p - 2) (v div 100)"
      using True by (subst uint64_to_str_back_loop.simps) (simp add: k tab w1 w2 bind_err_def Let_def del: One_nat_def)
    show ?thesis
    proof (cases "unat v < 100")
      case True
      then have "unat (v div 100) = 0" by (simp add: q)
      then have z: "v div 100 = 0" by (simp only: unat_eq_0)
      have "decimal_text (unat v) = d"
        using True ge by (simp add: decimal_text_lt100 d_def k_def)
      moreover have "length d = 2" by (simp add: d_def)
      ultimately show ?thesis
        by (simp add: step z uint64_to_str_back_loop.simps [of _ 0] bind_err_def)
    next
      case False
      then have "unat (v div 100) \<noteq> 0" using ge by (simp add: q)
      then have nz: "v div 100 \<noteq> 0" by (simp only: unat_eq_0 not_False_eq_True)
      have dt: "decimal_text (unat v) = decimal_text (unat (v div 100)) @ d"
        using False by (simp add: decimal_text_ge100 d_def k_def q)
      have lt: "unat (v div 100) < unat v" using ge by (simp add: q)
      have l1: "length (decimal_text (unat (v div 100))) \<le> p - 2"
        using less.prems(2) by (simp add: dt d_def)
      have l2: "p - 2 \<le> length (place buf (p - 2) d)"
        using p2 less.prems(3) by (simp add: length_place d_def)
      have pp: "place (place buf (p - 2) d) (p - 2 - length (decimal_text (unat (v div 100)))) (decimal_text (unat (v div 100)))
                = place buf (p - 2 - length (decimal_text (unat (v div 100)))) (decimal_text (unat (v div 100)) @ d)"
        using l1 p2 less.prems(3) by (intro place_place_before) (simp_all add: d_def)
      have ld: "length d = 2" by (simp add: d_def)
      have ix: "p - length (decimal_text (unat (v div 100)) @ d) = p - 2 - length (decimal_text (unat (v div 100)))"
        by (simp add: ld)
      show ?thesis
        unfolding step dt ix less.hyps [OF lt nz l1 l2] pp ..
    qed
  qed
qed

lemma digit_char_0: "digit_char 0 = CHR ''0''"
  by (simp add: digit_char_def)

lemma gsize_of_int_nonneg: "0 \<le> sint n \<Longrightarrow> gsize_of_int n = nat (sint n)"
proof -
  assume h: "0 \<le> sint n"
  have "sint n < 2 ^ (LENGTH(32) - Suc 0)" by (rule sint_less)
  also have "\<dots> < (2::int) ^ LENGTH(64)" by simp
  finally have b: "sint n < 2 ^ LENGTH(64)" .
  have t: "take_bit LENGTH(64) (sint n) = sint n"
    using h b by (rule take_bit_int_eq_self)
  have "uint (scast n :: 64 word) = take_bit LENGTH(64) (sint n)"
    by (simp only: scast_eq uint_word_of_int_eq)
  then have "uint (scast n :: 64 word) = sint n" by (simp only: t)
  then show ?thesis by (simp only: gsize_of_int_def unat_eq_nat_uint)
qed

lemma uint_to_str_back_place:
  assumes "length (decimal_text (unat v)) \<le> p" "p \<le> length buf"
  shows "uint_to_str_back (buf, p) v
         = Inr (place buf (p - length (decimal_text (unat v))) (decimal_text (unat v)),
                p - length (decimal_text (unat v)))"
proof (cases "v = 0")
  case True
  have d0: "decimal_text 0 = [CHR ''0'']" by (simp add: decimal_text_lt10 digit_char_0)
  have "0 < p" using assms(1) True by (simp add: d0)
  then show ?thesis
    using assms(2) True
    by (simp add: uint_to_str_back_def put_back_place bind_err_def d0
                  uint_to_str_back_loop.simps [of _ 0])
next
  case False
  then show ?thesis
    using uint_to_str_back_loop_place [OF False assms]
    by (simp add: uint_to_str_back_def bind_err_def)
qed

lemma uint64_to_str_back_place:
  assumes "length (decimal_text (unat v)) \<le> p" "p \<le> length buf"
  shows "uint64_to_str_back (buf, p) v
         = Inr (place buf (p - length (decimal_text (unat v))) (decimal_text (unat v)),
                p - length (decimal_text (unat v)))"
proof (cases "v = 0")
  case True
  have d0: "decimal_text 0 = [CHR ''0'']" by (simp add: decimal_text_lt10 digit_char_0)
  have "0 < p" using assms(1) True by (simp add: d0)
  then show ?thesis
    using assms(2) True
    by (simp add: uint64_to_str_back_def put_back_place bind_err_def d0
                  uint64_to_str_back_loop.simps [of _ 0])
next
  case False
  then show ?thesis
    using uint64_to_str_back_loop_place [OF False assms]
    by (simp add: uint64_to_str_back_def bind_err_def)
qed

lemma read_between_place:
  "n = length s \<Longrightarrow> n \<le> p \<Longrightarrow> p \<le> length buf \<Longrightarrow> read_between (place buf (p - n) s) (p - n) p = s"
  by (simp add: read_between_def place_def)

lemma parse_decimal_from_snoc:
  "parse_decimal_from a (s @ [c]) =
     (case parse_decimal_from a s of None \<Rightarrow> None
      | Some b \<Rightarrow> if is_digit c then Some (10 * b + digit_value c) else None)"
  by (induction s arbitrary: a) simp_all

lemma nat_lt10_cases:
  "d < 10 \<Longrightarrow> d = 0 \<or> d = 1 \<or> d = 2 \<or> d = 3 \<or> d = 4 \<or> d = 5 \<or> d = 6 \<or> d = 7 \<or> d = 8 \<or> d = (9::nat)"
  by arith

lemma digit_char_is_digit: "d < 10 \<Longrightarrow> is_digit (digit_char d)"
  by (drule nat_lt10_cases) (elim disjE; simp add: is_digit_def digit_char_def)

lemma digit_value_digit_char: "d < 10 \<Longrightarrow> digit_value (digit_char d) = d"
  by (drule nat_lt10_cases) (elim disjE; simp add: digit_value_def digit_char_def)

lemma parse_decimal_from_text: "parse_decimal_from 0 (decimal_text n) = Some n"
proof (induction n rule: decimal_text.induct)
  case (1 n)
  show ?case
  proof (cases "n < 10")
    case True
    then show ?thesis
      by (simp add: decimal_text_lt10 digit_char_is_digit digit_value_digit_char)
  next
    case False
    then have "decimal_text n = decimal_text (n div 10) @ [digit_char (n mod 10)]"
      by (subst decimal_text.simps) simp
    then show ?thesis
      using 1 [OF False]
      by (simp add: parse_decimal_from_snoc digit_char_is_digit digit_value_digit_char)
  qed
qed

lemma parse_decimal_text: "parse_decimal (decimal_text n) = Some n"
  by (simp add: parse_decimal_def decimal_text_nonempty parse_decimal_from_text)

section \<open>The length of the decimal text and the threshold cascades\<close>

lemma length_decimal_text_pow:
  "n < 10 ^ Suc k \<Longrightarrow> k = 0 \<or> 10 ^ k \<le> n \<Longrightarrow> length (decimal_text n) = Suc k"
proof (induction k arbitrary: n)
  case 0
  then show ?case by (simp add: decimal_text_lt10)
next
  case (Suc k)
  from Suc.prems have lo: "10 ^ Suc k \<le> n" by simp
  have "(10::nat) \<le> 10 ^ Suc k" by simp
  with lo have ge: "10 \<le> n" by linarith
  have d: "decimal_text n = decimal_text (n div 10) @ [digit_char (n mod 10)]"
    using ge by (subst decimal_text.simps) simp
  have hi: "n div 10 < 10 ^ Suc k"
    using Suc.prems(1) by (simp add: less_mult_imp_div_less mult.commute)
  have lo': "10 ^ k \<le> n div 10"
    using lo by (simp add: less_eq_div_iff_mult_less_eq mult.commute)
  show ?case
    using Suc.IH [OF hi] lo' by (simp add: d)
qed

lemma length_decimal_text_1:
  "n < 10 \<Longrightarrow> length (decimal_text n) = 1"
  using length_decimal_text_pow [of n 0] by simp

lemma length_decimal_text_2:
  "10 \<le> n \<Longrightarrow> n < 100 \<Longrightarrow> length (decimal_text n) = 2"
  using length_decimal_text_pow [of n 1] by simp

lemma length_decimal_text_3:
  "100 \<le> n \<Longrightarrow> n < 1000 \<Longrightarrow> length (decimal_text n) = 3"
  using length_decimal_text_pow [of n 2] by simp

lemma length_decimal_text_4:
  "1000 \<le> n \<Longrightarrow> n < 10000 \<Longrightarrow> length (decimal_text n) = 4"
  using length_decimal_text_pow [of n 3] by simp

lemma length_decimal_text_5:
  "10000 \<le> n \<Longrightarrow> n < 100000 \<Longrightarrow> length (decimal_text n) = 5"
  using length_decimal_text_pow [of n 4] by simp

lemma length_decimal_text_6:
  "100000 \<le> n \<Longrightarrow> n < 1000000 \<Longrightarrow> length (decimal_text n) = 6"
  using length_decimal_text_pow [of n 5] by simp

lemma length_decimal_text_7:
  "1000000 \<le> n \<Longrightarrow> n < 10000000 \<Longrightarrow> length (decimal_text n) = 7"
  using length_decimal_text_pow [of n 6] by simp

lemma length_decimal_text_8:
  "10000000 \<le> n \<Longrightarrow> n < 100000000 \<Longrightarrow> length (decimal_text n) = 8"
  using length_decimal_text_pow [of n 7] by simp

lemma length_decimal_text_9:
  "100000000 \<le> n \<Longrightarrow> n < 1000000000 \<Longrightarrow> length (decimal_text n) = 9"
  using length_decimal_text_pow [of n 8] by simp

lemma length_decimal_text_10:
  "1000000000 \<le> n \<Longrightarrow> n < 10000000000 \<Longrightarrow> length (decimal_text n) = 10"
  using length_decimal_text_pow [of n 9] by simp

lemma length_decimal_text_11:
  "10000000000 \<le> n \<Longrightarrow> n < 100000000000 \<Longrightarrow> length (decimal_text n) = 11"
  using length_decimal_text_pow [of n 10] by simp

lemma length_decimal_text_12:
  "100000000000 \<le> n \<Longrightarrow> n < 1000000000000 \<Longrightarrow> length (decimal_text n) = 12"
  using length_decimal_text_pow [of n 11] by simp

lemma length_decimal_text_13:
  "1000000000000 \<le> n \<Longrightarrow> n < 10000000000000 \<Longrightarrow> length (decimal_text n) = 13"
  using length_decimal_text_pow [of n 12] by simp

lemma length_decimal_text_14:
  "10000000000000 \<le> n \<Longrightarrow> n < 100000000000000 \<Longrightarrow> length (decimal_text n) = 14"
  using length_decimal_text_pow [of n 13] by simp

lemma length_decimal_text_15:
  "100000000000000 \<le> n \<Longrightarrow> n < 1000000000000000 \<Longrightarrow> length (decimal_text n) = 15"
  using length_decimal_text_pow [of n 14] by simp

lemma length_decimal_text_16:
  "1000000000000000 \<le> n \<Longrightarrow> n < 10000000000000000 \<Longrightarrow> length (decimal_text n) = 16"
  using length_decimal_text_pow [of n 15] by simp

lemma length_decimal_text_17:
  "10000000000000000 \<le> n \<Longrightarrow> n < 100000000000000000 \<Longrightarrow> length (decimal_text n) = 17"
  using length_decimal_text_pow [of n 16] by simp

lemma length_decimal_text_18:
  "100000000000000000 \<le> n \<Longrightarrow> n < 1000000000000000000 \<Longrightarrow> length (decimal_text n) = 18"
  using length_decimal_text_pow [of n 17] by simp

lemma length_decimal_text_19:
  "1000000000000000000 \<le> n \<Longrightarrow> n < 10000000000000000000 \<Longrightarrow> length (decimal_text n) = 19"
  using length_decimal_text_pow [of n 18] by simp

lemma length_decimal_text_20:
  "10000000000000000000 \<le> n \<Longrightarrow> n < 100000000000000000000 \<Longrightarrow> length (decimal_text n) = 20"
  using length_decimal_text_pow [of n 19] by simp

lemmas length_decimal_text_upto_10 = length_decimal_text_1 length_decimal_text_2 length_decimal_text_3 length_decimal_text_4 length_decimal_text_5 length_decimal_text_6 length_decimal_text_7 length_decimal_text_8 length_decimal_text_9 length_decimal_text_10

lemmas length_decimal_text_upto_20 = length_decimal_text_1 length_decimal_text_2 length_decimal_text_3 length_decimal_text_4 length_decimal_text_5 length_decimal_text_6 length_decimal_text_7 length_decimal_text_8 length_decimal_text_9 length_decimal_text_10 length_decimal_text_11 length_decimal_text_12 length_decimal_text_13 length_decimal_text_14 length_decimal_text_15 length_decimal_text_16 length_decimal_text_17 length_decimal_text_18 length_decimal_text_19 length_decimal_text_20

lemma guint32_to_str_buf_len_digits:
  "guint32_to_str_buf_len u = length (decimal_text (unat u))"
proof -
  have "unat u < 2 ^ LENGTH(32)" by (rule unsigned_less)
  then have b: "unat u < 10000000000" by simp
  show ?thesis
    using b
    by (simp add: guint32_to_str_buf_len_def word_le_nat_alt length_decimal_text_upto_10)
qed

lemma guint64_to_str_buf_len_digits:
  "guint64_to_str_buf_len u = length (decimal_text (unat u))"
proof -
  have "unat u < 2 ^ LENGTH(64)" by (rule unsigned_less)
  then have b: "unat u < 100000000000000000000" by simp
  show ?thesis
    using b
    by (simp add: guint64_to_str_buf_len_def word_le_nat_alt length_decimal_text_upto_20)
qed

section \<open>What the bounded formatters store\<close>

lemma g_strlcpy_place:
  "min (length src + 1) n \<le> length dest \<Longrightarrow>
   g_strlcpy dest src n
     = Inr (if n = 0 then dest else place dest 0 (take (n - 1) src @ [NUL]), length src)"
proof (cases "n = 0")
  case True
  then show ?thesis by (simp add: g_strlcpy_def)
next
  case False
  assume "min (length src + 1) n \<le> length dest"
  with False have "min (length src) (n - 1) < length dest" by arith
  moreover have "take (min (length src) (n - Suc 0)) src = take (n - Suc 0) src"
    by (simp add: min_def)
  ultimately show ?thesis
    using False by (simp add: g_strlcpy_def place_def Let_def)
qed

lemma digit_char_not_NUL: "d < 10 \<Longrightarrow> digit_char d \<noteq> NUL"
  by (drule nat_lt10_cases) (elim disjE; simp add: digit_char_def NUL_def)

lemma decimal_text_no_NUL: "NUL \<notin> set (decimal_text n)"
proof (induction n rule: decimal_text.induct)
  case (1 n)
  show ?case
  proof (cases "n < 10")
    case True
    then show ?thesis using digit_char_not_NUL [of n] by (auto simp: decimal_text_lt10)
  next
    case False
    then have "decimal_text n = decimal_text (n div 10) @ [digit_char (n mod 10)]"
      by (subst decimal_text.simps) simp
    then show ?thesis
      using 1 [OF False] digit_char_not_NUL [of "n mod 10"] by auto
  qed
qed

lemma c_str_place_0: "NUL \<notin> set s \<Longrightarrow> c_str (place buf 0 (s @ [NUL])) = s"
proof -
  assume "NUL \<notin> set s"
  then have "\<And>x. x \<in> set s \<Longrightarrow> x \<noteq> NUL" by auto
  then show ?thesis
    by (simp add: c_str_def place_def takeWhile_append2)
qed

lemma guint32_to_str_buf_fits:
  assumes "int (guint32_to_str_buf_len u + 1) \<le> sint buf_len"
      and "nat (sint buf_len) \<le> length buf"
  shows "guint32_to_str_buf u buf buf_len = Inr (place buf 0 (decimal_text (unat u) @ [NUL]))"
proof -
  define n where "n = length (decimal_text (unat u))"
  have len: "guint32_to_str_buf_len u = n"
    by (simp add: n_def guint32_to_str_buf_len_digits)
  have room: "n + 1 \<le> length buf" using assms by (simp add: len)
  have w0: "put_back NUL (buf, Suc n) = Inr (place buf n [NUL], n)"
    using room put_back_place [of "Suc n" buf NUL] by simp
  have w1: "uint_to_str_back (place buf n [NUL], n) u
            = Inr (place (place buf n [NUL]) (n - n) (decimal_text (unat u)), n - n)"
    unfolding n_def [symmetric]
    using room by (intro uint_to_str_back_place [of u n, folded n_def]) (simp_all add: length_place)
  have pp: "place (place buf n [NUL]) (n - length (decimal_text (unat u))) (decimal_text (unat u))
            = place buf (n - length (decimal_text (unat u))) (decimal_text (unat u) @ [NUL])"
    using room by (intro place_place_before) (simp_all add: n_def)
  show ?thesis
    using assms(1) pp
    by (simp add: guint32_to_str_buf_def Let_def len w0 w1 bind_err_def n_def [symmetric])
qed

lemma guint32_to_str_buf_short:
  assumes "sint buf_len < int (guint32_to_str_buf_len u + 1)"
      and "0 \<le> sint buf_len" and "nat (sint buf_len) \<le> length buf"
  shows "guint32_to_str_buf u buf buf_len
         = Inr (if sint buf_len = 0 then buf
                else place buf 0 (take (nat (sint buf_len) - 1) BUF_TOO_SMALL_ERR @ [NUL]))"
proof -
  have g: "gsize_of_int buf_len = nat (sint buf_len)"
    using assms(2) by (rule gsize_of_int_nonneg)
  have "min (length BUF_TOO_SMALL_ERR + 1) (nat (sint buf_len)) \<le> length buf"
    using assms(3) by simp
  from g_strlcpy_place [OF this] show ?thesis
    using assms(1,2) by (simp add: guint32_to_str_buf_def Let_def g bind_err_def)
qed

lemma guint64_to_str_buf_fits:
  assumes "int (guint64_to_str_buf_len u + 1) \<le> sint buf_len"
      and "nat (sint buf_len) \<le> length buf"
  shows "guint64_to_str_buf u buf buf_len = Inr (place buf 0 (decimal_text (unat u) @ [NUL]))"
proof -
  define n where "n = length (decimal_text (unat u))"
  have len: "guint64_to_str_buf_len u = n"
    by (simp add: n_def guint64_to_str_buf_len_digits)
  have room: "n + 1 \<le> length buf" using assms by (simp add: len)
  have w0: "put_back NUL (buf, Suc n) = Inr (place buf n [NUL], n)"
    using room put_back_place [of "Suc n" buf NUL] by simp
  have w1: "uint64_to_str_back (place buf n [NUL], n) u
            = Inr (place (place buf n [NUL]) (n - n) (decimal_text (unat u)), n - n)"
    unfolding n_def [symmetric]
    using room by (intro uint64_to_str_back_place [of u n, folded n_def]) (simp_all add: length_place)
  have pp: "place (place buf n [NUL]) (n - length (decimal_text (unat u))) (decimal_text (unat u))
            = place buf (n - length (decimal_text (unat u))) (decimal_text (unat u) @ [NUL])"
    using room by (intro place_place_before) (simp_all add: n_def)
  show ?thesis
    using assms(1) pp
    by (simp add: guint64_to_str_buf_def Let_def len w0 w1 bind_err_def n_def [symmetric])
qed

lemma guint64_to_str_buf_short:
  assumes "sint buf_len < int (guint64_to_str_buf_len u + 1)"
      and "0 \<le> sint buf_len" and "nat (sint buf_len) \<le> length buf"
  shows "guint64_to_str_buf u buf buf_len
         = Inr (if sint buf_len = 0 then buf
                else place buf 0 (take (nat (sint buf_len) - 1) BUF_TOO_SMALL_ERR @ [NUL]))"
proof -
  have g: "gsize_of_int buf_len = nat (sint buf_len)"
    using assms(2) by (rule gsize_of_int_nonneg)
  have "min (length BUF_TOO_SMALL_ERR + 1) (nat (sint buf_len)) \<le> length buf"
    using assms(3) by simp
  from g_strlcpy_place [OF this] show ?thesis
    using assms(1,2) by (simp add: guint64_to_str_buf_def Let_def g bind_err_def)
qed

lemma terminated_within_place:
  "length s < n \<Longrightarrow> terminated_within (place buf 0 (s @ [NUL])) n"
  by (simp add: terminated_within_def place_def take_Cons')

section \<open>The loops of the bit-field visualizer\<close>

lemma put_fwd_fresh:
  assumes "length w < n"
  shows "put_fwd c (fresh n w, length w) = Inr (fresh n (w @ [c]), length (w @ [c]))"
proof -
  obtain m where m: "n - length w = Suc m" using assms by (cases "n - length w") auto
  then have m': "n - Suc (length w) = m" by simp
  show ?thesis
    using assms by (simp add: put_fwd_def poke_def bind_err_def fresh_def m m')
qed

lemma put_fwd_if_fresh:
  assumes "length w < n"
  shows "(if c then put_fwd ch (fresh n w, length w) else Inr (fresh n w, length w))
         = Inr (fresh n (w @ (if c then [ch] else [])), length (w @ (if c then [ch] else [])))"
  using put_fwd_fresh [OF assms, of ch] by simp

lemma bind_err_Inr: "bind_err (Inr x) f = f x"
  by (simp add: bind_err_def)

text \<open>One round of a loop: an optional space, an optional second space, a glyph.\<close>

lemma round_fresh:
  assumes "length w + 3 \<le> n"
  shows "bind_err (if c1 then put_fwd CHR '' '' (fresh n w, length w) else Inr (fresh n w, length w)) (\<lambda>st.
         bind_err (if c2 then put_fwd CHR '' '' st else Inr st) (\<lambda>st.
         bind_err (put_fwd g st) k))
         = k (fresh n (w @ ((if c1 then '' '' else []) @ (if c2 then '' '' else []) @ [g])),
              length (w @ ((if c1 then '' '' else []) @ (if c2 then '' '' else []) @ [g])))"
proof -
  define w1 where "w1 = w @ (if c1 then '' '' else [])"
  define w2 where "w2 = w1 @ (if c2 then '' '' else [])"
  have l1: "length w1 < n" "length w2 < n" "length w < n"
    using assms by (auto simp: w1_def w2_def)
  have s1: "(if c1 then put_fwd CHR '' '' (fresh n w, length w) else Inr (fresh n w, length w))
            = Inr (fresh n w1, length w1)"
    unfolding w1_def by (rule put_fwd_if_fresh) (rule l1)
  have s2: "(if c2 then put_fwd CHR '' '' (fresh n w1, length w1) else Inr (fresh n w1, length w1))
            = Inr (fresh n w2, length w2)"
    unfolding w2_def by (rule put_fwd_if_fresh) (rule l1)
  have s3: "put_fwd g (fresh n w2, length w2) = Inr (fresh n (w2 @ [g]), length (w2 @ [g]))"
    by (rule put_fwd_fresh) (rule l1)
  have e: "w2 @ [g] = w @ ((if c1 then '' '' else []) @ (if c2 then '' '' else []) @ [g])"
    by (simp add: w1_def w2_def)
  show ?thesis
    unfolding s1 bind_err_Inr s2 s3 e ..
qed

lemma round2_fresh:
  assumes "length w + 2 \<le> n"
  shows "bind_err (if c1 then put_fwd CHR '' '' (fresh n w, length w) else Inr (fresh n w, length w)) (\<lambda>st.
         bind_err (put_fwd g st) k)
         = k (fresh n (w @ ((if c1 then '' '' else []) @ [g])),
              length (w @ ((if c1 then '' '' else []) @ [g])))"
proof -
  define w1 where "w1 = w @ (if c1 then '' '' else [])"
  have l1: "length w1 < n" "length w < n"
    using assms by (auto simp: w1_def)
  have s1: "(if c1 then put_fwd CHR '' '' (fresh n w, length w) else Inr (fresh n w, length w))
            = Inr (fresh n w1, length w1)"
    unfolding w1_def by (rule put_fwd_if_fresh) (rule l1)
  have s3: "put_fwd g (fresh n w1, length w1) = Inr (fresh n (w1 @ [g]), length (w1 @ [g]))"
    by (rule put_fwd_fresh) (rule l1)
  have e: "w1 @ [g] = w @ ((if c1 then '' '' else []) @ [g])"
    by (simp add: w1_def)
  show ?thesis
    unfolding s1 bind_err_Inr s3 e ..
qed

lemma group_gap_inside_byte:
  "k mod 8 \<noteq> 0 \<or> k = 0 \<Longrightarrow> group_gap k = (if k \<noteq> 0 \<and> k mod 4 = 0 then '' '' else [])"
  by (auto simp: group_gap_def)

lemma group_gap_length: "length (group_gap k) \<le> 2"
  by (simp add: group_gap_def)

lemma leading_dots_fresh:
  "lim \<le> 8 \<Longrightarrow> length w + 2 * (lim - b) \<le> n \<Longrightarrow>
   leading_dots lim b (fresh n w, length w)
     = Inr ((fresh n (w @ concat (map (\<lambda>k. group_gap k @ ''.'') [b..<lim])),
             length (w @ concat (map (\<lambda>k. group_gap k @ ''.'') [b..<lim]))), max b lim)"
proof (induction "lim - b" arbitrary: b w)
  case 0
  then show ?case by (simp add: leading_dots.simps [of lim b] max_def)
next
  case (Suc d)
  then have lt: "b < lim" by simp
  have g: "group_gap b = (if b \<noteq> 0 \<and> b mod 4 = 0 then '' '' else [])"
    using lt Suc.prems(1) by (intro group_gap_inside_byte) auto
  define w' where "w' = w @ (group_gap b @ ''.'')"
  have room: "length w + 2 \<le> n" using Suc.prems(2) lt by simp
  have d: "d = lim - Suc b" using Suc.hyps(2) by simp
  have gl: "length (group_gap b) \<le> 1" by (simp add: g)
  have room': "length w' + 2 * (lim - Suc b) \<le> n"
    using Suc.prems(2) lt gl by (simp add: w'_def)
  have step: "leading_dots lim b (fresh n w, length w) = leading_dots lim (b + 1) (fresh n w', length w')"
    using lt by (subst leading_dots.simps) (simp add: round2_fresh [OF room] w'_def g)
  have u: "[b..<lim] = b # [Suc b..<lim]" using lt by (rule upt_conv_Cons)
  show ?case
    using Suc.hyps(1) [OF d Suc.prems(1) room'] lt
    by (simp add: step u w'_def max_def)
qed

lemma mask_selects_bit:
  fixes v :: "64 word"
  assumes "i < m" and "m \<le> 64"
  shows "(v AND drop_bit i (push_bit (m - 1) 1) \<noteq> 0) = bit v (m - 1 - i)"
proof -
  have "push_bit (m - 1) (1 :: 64 word) = 2 ^ (m - 1)" by (simp add: push_bit_eq_mult)
  then have "drop_bit i (push_bit (m - 1) (1 :: 64 word)) = drop_bit i (2 ^ (m - 1))" by simp
  also have "\<dots> = of_bool (i \<le> m - 1 \<and> possible_bit TYPE(64 word) (m - 1)) * 2 ^ (m - 1 - i)"
    by (rule drop_bit_exp_eq)
  also have "\<dots> = 2 ^ (m - 1 - i)"
  proof -
    have "i \<le> m - 1" "m - 1 < 64" using assms by simp_all
    then show ?thesis by simp
  qed
  finally have "drop_bit i (push_bit (m - 1) (1 :: 64 word)) = 2 ^ (m - 1 - i)" .
  then show ?thesis by (simp only: and_exp_eq_0_iff_not_bit not_not)
qed

lemma field_bits_fresh:
  "i \<le> m \<Longrightarrow> m \<le> 64 \<Longrightarrow> length w + 3 * (m - i) \<le> n \<Longrightarrow>
   field_bits m v i b (drop_bit i (push_bit (m - 1) 1)) (fresh n w, length w)
     = Inr ((fresh n (w @ concat (map (\<lambda>j. group_gap (b + (j - i))
                                          @ [if bit v (m - 1 - j) then CHR ''1'' else CHR ''0''])
                                   [i..<m])),
             length (w @ concat (map (\<lambda>j. group_gap (b + (j - i))
                                          @ [if bit v (m - 1 - j) then CHR ''1'' else CHR ''0''])
                                   [i..<m]))),
            b + (m - i))"
proof (induction "m - i" arbitrary: i b w)
  case 0
  then show ?case by (subst field_bits.simps) simp
next
  case (Suc d)
  then have lt: "i < m" by simp
  define g where "g = (if bit v (m - 1 - i) then CHR ''1'' else CHR ''0'')"
  define w' where "w' = w @ (group_gap b @ [g])"
  have room: "length w + 3 \<le> n" using Suc.prems(3) lt by simp
  have d: "d = m - Suc i" using Suc.hyps(2) by simp
  have le: "Suc i \<le> m" using lt by simp
  have room': "length w' + 3 * (m - Suc i) \<le> n"
    using Suc.prems(3) lt group_gap_length [of b] by (simp add: w'_def)
  have sel: "(if v AND drop_bit i (push_bit (m - 1) 1) \<noteq> 0 then CHR ''1'' else CHR ''0'') = g"
    by (simp only: mask_selects_bit [OF lt Suc.prems(2)] g_def)
  have step: "field_bits m v i b (drop_bit i (push_bit (m - 1) 1)) (fresh n w, length w)
              = field_bits m v (Suc i) (Suc b) (drop_bit (Suc i) (push_bit (m - 1) 1)) (fresh n w', length w')"
    apply (subst field_bits.simps)
    apply (simp only: lt if_True round_fresh [OF room] sel drop_bit_drop_bit)
    apply (simp only: w'_def group_gap_def append_assoc plus_1_eq_Suc Suc_eq_plus1 [symmetric])
    done
  have u: "[i..<m] = i # [Suc i..<m]" using lt by (rule upt_conv_Cons)
  have mp: "map (\<lambda>j. group_gap (Suc b + (j - Suc i)) @ [if bit v (m - 1 - j) then CHR ''1'' else CHR ''0'']) [Suc i..<m]
          = map (\<lambda>j. group_gap (b + (j - i)) @ [if bit v (m - 1 - j) then CHR ''1'' else CHR ''0'']) [Suc i..<m]"
  proof (rule map_cong [OF refl])
    fix j assume "j \<in> set [Suc i..<m]"
    then have "Suc i \<le> j" by simp
    then have "Suc b + (j - Suc i) = b + (j - i)" by arith
    then show "group_gap (Suc b + (j - Suc i)) @ [if bit v (m - 1 - j) then CHR ''1'' else CHR ''0'']
             = group_gap (b + (j - i)) @ [if bit v (m - 1 - j) then CHR ''1'' else CHR ''0'']"
      by (simp only:)
  qed
  have fin: "Suc b + (m - Suc i) = b + (m - i)" using lt by simp
  show ?case
    unfolding step Suc.hyps(1) [OF d le Suc.prems(2) room'] mp u fin
    by (simp add: w'_def g_def)
qed

lemma round_up_8_cases:
  "round_up_8 b = (if b mod 8 = 0 then b else b + (8 - b mod 8))"
proof -
  define q r where "q = b div 8" and "r = b mod 8"
  have b: "b = 8 * q + r" by (simp add: q_def r_def)
  have r: "r < 8" by (simp add: r_def)
  have "(b + 7) div 8 = q + (r + 7) div 8"
  proof -
    have "b + 7 = (r + 7) + q * 8" by (simp add: b)
    then have "(b + 7) div 8 = ((r + 7) + q * 8) div 8" by simp
    also have "\<dots> = (r + 7) div 8 + q" by simp
    finally show ?thesis by simp
  qed
  moreover have "(r + 7) div 8 = (if r = 0 then 0 else 1)"
    using r by (auto simp: div_eq_dividend_iff Euclidean_Rings.div_nat_eqI)
  ultimately show ?thesis
    using r by (auto simp: round_up_8_def b r_def [symmetric])
qed
lemma round_up_8_step: "b mod 8 \<noteq> 0 \<Longrightarrow> round_up_8 (Suc b) = round_up_8 b"
proof -
  assume nz: "b mod 8 \<noteq> 0"
  have lt: "b mod 8 < 8" by simp
  show ?thesis
  proof (cases "Suc (b mod 8) = 8")
    case True
    then have "Suc b mod 8 = 0" "b mod 8 = 7" by (simp_all add: mod_Suc)
    then show ?thesis by (simp add: round_up_8_cases)
  next
    case False
    then have "Suc b mod 8 = Suc (b mod 8)" by (simp add: mod_Suc)
    then show ?thesis using nz lt by (simp add: round_up_8_cases)
  qed
qed

lemma round_up_8_gt: "b mod 8 \<noteq> 0 \<Longrightarrow> b < round_up_8 b"
  using mod_less_divisor [of 8 b] by (simp add: round_up_8_cases del: mod_less_divisor)

lemma round_up_8_fix: "b mod 8 = 0 \<Longrightarrow> round_up_8 b = b"
  by (simp add: round_up_8_cases)

lemma round_up_8_bounds: "b \<le> round_up_8 b" "round_up_8 b \<le> b + 7"
  using mod_less_divisor [of 8 b] by (auto simp: round_up_8_cases simp del: mod_less_divisor)

lemma trailing_dots_fresh:
  "length w + 2 * (round_up_8 b - b) \<le> n \<Longrightarrow>
   trailing_dots b (fresh n w, length w)
     = Inr (fresh n (w @ concat (map (\<lambda>k. group_gap k @ ''.'') [b..<round_up_8 b])),
            length (w @ concat (map (\<lambda>k. group_gap k @ ''.'') [b..<round_up_8 b])))"
proof (induction "round_up_8 b - b" arbitrary: b w)
  case 0
  then have "\<not> b < round_up_8 b" by simp
  then have z: "b mod 8 = 0" using round_up_8_gt [of b] by blast
  then show ?case by (subst trailing_dots.simps) (simp add: round_up_8_fix)
next
  case (Suc d)
  then have lt: "b < round_up_8 b" by simp
  then have nz: "b mod 8 \<noteq> 0" using round_up_8_fix [of b] by auto
  have r: "round_up_8 (Suc b) = round_up_8 b" using nz by (rule round_up_8_step)
  have g: "group_gap b = (if b \<noteq> 0 \<and> b mod 4 = 0 then '' '' else [])"
    using nz by (intro group_gap_inside_byte) simp
  define w' where "w' = w @ (group_gap b @ ''.'')"
  have room: "length w + 2 \<le> n" using Suc.prems lt by simp
  have d: "d = round_up_8 (Suc b) - Suc b" using Suc.hyps(2) by (simp add: r)
  have gl: "length (group_gap b) \<le> 1" by (simp add: g)
  have room': "length w' + 2 * (round_up_8 (Suc b) - Suc b) \<le> n"
    using Suc.prems lt gl by (simp add: w'_def r)
  have step: "trailing_dots b (fresh n w, length w) = trailing_dots (Suc b) (fresh n w', length w')"
    using nz by (subst trailing_dots.simps) (simp add: round2_fresh [OF room] w'_def g)
  have u: "[b..<round_up_8 b] = b # [Suc b..<round_up_8 b]" using lt by (rule upt_conv_Cons)
  show ?case
    unfolding step Suc.hyps(1) [OF d room'] r u
    by (simp add: w'_def)
qed

lemma gap_glyph_run_length:
  "length (concat (map (\<lambda>k. group_gap (f k) @ [g k]) [a..<b])) \<le> 3 * (b - a)"
proof (induction "b - a" arbitrary: a)
  case 0
  then show ?case by simp
next
  case (Suc d)
  then have lt: "a < b" by simp
  have u: "[a..<b] = a # [Suc a..<b]" using lt by (rule upt_conv_Cons)
  have d: "d = b - Suc a" using Suc.hyps(2) by simp
  show ?case
    using Suc.hyps(1) [OF d] group_gap_length [of "f a"] lt by (simp add: u)
qed

lemma c_str_fresh: "NUL \<notin> set w \<Longrightarrow> c_str (fresh n w) = w"
proof -
  assume "NUL \<notin> set w"
  then have "\<And>x. x \<in> set w \<Longrightarrow> x \<noteq> NUL" by auto
  moreover have "takeWhile (\<lambda>c. c \<noteq> NUL) (replicate (n - length w) NUL) = []"
    by (cases "n - length w") simp_all
  ultimately show ?thesis
    by (simp add: c_str_def fresh_def takeWhile_append2)
qed

lemma bitfield_text_no_NUL: "NUL \<notin> set (bitfield_text off w v)"
  by (auto simp: bitfield_text_def group_gap_def bit_glyph_def NUL_def)

lemma bitfield_text_split:
  assumes "1 \<le> m"
  shows "bitfield_text off m v
         = concat (map (\<lambda>k. group_gap k @ ''.'') [0..<off])
         @ concat (map (\<lambda>j. group_gap (off + (j - 0))
                            @ [if bit v (m - 1 - j) then CHR ''1'' else CHR ''0'']) [0..<m])
         @ concat (map (\<lambda>k. group_gap k @ ''.'') [off + m..<round_up_8 (off + m)])"
proof -
  define R where "R = round_up_8 (off + m)"
  define G where "G = (\<lambda>k. group_gap k @ [bit_glyph off m v k])"
  have le: "off + m \<le> R" unfolding R_def by (rule round_up_8_bounds)
  obtain e where e: "R = off + m + e" using le by (auto simp: le_iff_add)
  have "[0..<R] = [0..<off + m] @ [off + m..<off + m + e]"
    unfolding e by (rule upt_add_eq_append) simp
  also have "[0..<off + m] = [0..<off] @ [off..<off + m]"
    by (rule upt_add_eq_append) simp
  finally have sp: "[0..<R] = [0..<off] @ [off..<off + m] @ [off + m..<R]" by (simp add: e)
  have p1: "map G [0..<off] = map (\<lambda>k. group_gap k @ ''.'') [0..<off]"
    by (rule map_cong [OF refl]) (simp add: G_def bit_glyph_def)
  have p3: "map G [off + m..<R] = map (\<lambda>k. group_gap k @ ''.'') [off + m..<R]"
    by (rule map_cong [OF refl]) (simp add: G_def bit_glyph_def)
  have "map G [off..<off + m] = map G (map (\<lambda>j. j + off) [0..<m])"
    by (simp add: map_add_upt add.commute)
  also have "\<dots> = map (\<lambda>j. G (j + off)) [0..<m]" by (simp add: comp_def)
  also have "\<dots> = map (\<lambda>j. group_gap (off + (j - 0))
                            @ [if bit v (m - 1 - j) then CHR ''1'' else CHR ''0'']) [0..<m]"
    by (rule map_cong [OF refl]) (simp add: G_def bit_glyph_def add.commute)
  finally have p2: "map G [off..<off + m] = map (\<lambda>j. group_gap (off + (j - 0))
                            @ [if bit v (m - 1 - j) then CHR ''1'' else CHR ''0'']) [0..<m]" .
  have "bitfield_text off m v = concat (map G [0..<R])"
    by (simp add: bitfield_text_def G_def R_def)
  also have "\<dots> = concat (map G [0..<off]) @ concat (map G [off..<off + m]) @ concat (map G [off + m..<R])"
    by (simp add: sp)
  finally have "bitfield_text off m v
         = concat (map (\<lambda>k. group_gap k @ ''.'') [0..<off])
         @ concat (map (\<lambda>j. group_gap (off + (j - 0))
                            @ [if bit v (m - 1 - j) then CHR ''1'' else CHR ''0'']) [0..<m])
         @ concat (map (\<lambda>k. group_gap k @ ''.'') [off + m..<R])"
    by (simp only: p1 p2 p3)
  then show ?thesis by (simp only: R_def)
qed

lemma decode_bits_in_field_fresh:
  assumes "1 \<le> sint no_of_bits"
  shows "decode_bits_in_field bit_offset no_of_bits v
         = Inr (fresh 320 (bitfield_text (unat (bit_offset AND 7)) (nat (min 64 (sint no_of_bits))) v))"
proof -
  define off where "off = unat (bit_offset AND 7)"
  define m where "m = nat (min 64 (sint no_of_bits))"
  define T1 where "T1 = concat (map (\<lambda>k. group_gap k @ ''.'') [0..<off])"
  define T2 where "T2 = concat (map (\<lambda>j. group_gap (off + (j - 0))
                            @ [if bit v (m - 1 - j) then CHR ''1'' else CHR ''0'']) [0..<m])"
  define T3 where "T3 = concat (map (\<lambda>k. group_gap k @ ''.'') [off + m..<round_up_8 (off + m)])"
  have "bit_offset AND 7 \<le> 7" by (rule word_and_le1)
  then have off7: "off \<le> 7" by (simp add: off_def word_le_nat_alt)
  have m1: "1 \<le> m" and m64: "m \<le> 64" using assms by (simp_all add: m_def)
  have mb: "min 64 (sint no_of_bits) = int m" using assms by (simp add: m_def)
  have l1: "length T1 \<le> 3 * off" using gap_glyph_run_length [of "\<lambda>k. k" "\<lambda>k. CHR ''.''" 0 off]
    by (simp add: T1_def)
  have l2: "length T2 \<le> 3 * m"
    using gap_glyph_run_length [of "\<lambda>j. off + (j - 0)" "\<lambda>j. if bit v (m - 1 - j) then CHR ''1'' else CHR ''0''" 0 m]
    by (simp add: T2_def)
  have ru: "round_up_8 (off + m) - (off + m) \<le> 7"
    using round_up_8_bounds(2) [of "off + m"] by simp
  have s0: "replicate 320 NUL = fresh 320 []" by (simp add: fresh_def)
  have s1: "leading_dots off 0 (fresh 320 [], length ([] :: string))
            = Inr ((fresh 320 ([] @ T1), length ([] @ T1)), max 0 off)"
    unfolding T1_def using off7 by (intro leading_dots_fresh) simp_all
  have s2: "field_bits m v 0 off (drop_bit 0 (push_bit (m - 1) 1)) (fresh 320 T1, length T1)
            = Inr ((fresh 320 (T1 @ T2), length (T1 @ T2)), off + (m - 0))"
    unfolding T2_def using m64 l1 off7 by (intro field_bits_fresh) simp_all
  have s3: "trailing_dots (off + m) (fresh 320 (T1 @ T2), length (T1 @ T2))
            = Inr (fresh 320 ((T1 @ T2) @ T3), length ((T1 @ T2) @ T3))"
    unfolding T3_def using m64 l1 l2 off7 ru by (intro trailing_dots_fresh) simp_all
  have tx: "bitfield_text off m v = (T1 @ T2) @ T3"
    using bitfield_text_split [OF m1, of off v] by (simp add: T1_def T2_def T3_def)
  have sh: "shift_left_u64 1 (int m - 1) = Inr (push_bit (m - 1) 1)"
    using m1 m64 by (simp add: shift_left_u64_def nat_diff_distrib)
  have "decode_bits_in_field bit_offset no_of_bits v = Inr (fresh 320 ((T1 @ T2) @ T3))"
    using s1 s2 s3 m1 m64
    by (simp add: decode_bits_in_field_def mb sh s0 off_def [symmetric] bind_err_def Let_def)
  then show ?thesis by (simp only: tx [symmetric] off_def m_def)
qed

lemma bitfield_text_example: "bitfield_text 3 5 22 = ''...1 0110''"
  by (simp add: bitfield_text_def round_up_8_def group_gap_def bit_glyph_def upt_rec [of _ "numeral n" for n] upt_rec [of 0] bit_numeral_simps)

lemma decode_bits_in_field_undefined:
  assumes "sint no_of_bits \<le> 0"
  shows "decode_bits_in_field bit_offset no_of_bits v = Inl (UndefinedShift (sint no_of_bits - 1))"
proof -
  have mb: "min 64 (sint no_of_bits) = sint no_of_bits" using assms by simp
  have "shift_left_u64 1 (sint no_of_bits - 1) = Inl (UndefinedShift (sint no_of_bits - 1))"
    using assms by (simp add: shift_left_u64_def)
  then show ?thesis
    by (simp only: decode_bits_in_field_def Let_def mb bind_err_def sum.case)
qed

section \<open>What the hex encoder and the hex dump store\<close>

lemma unat_low_nibble:
  fixes x :: "32 word"
  shows "unat ((ucast x :: 8 word) AND 0xF) = unat x mod 16"
proof -
  have m: "(0xF :: 8 word) = mask 4" by (simp add: mask_eq_exp_minus_1)
  have "unat ((ucast x :: 8 word) AND mask 4) = unat (take_bit 4 (ucast x :: 8 word))"
    by (simp add: take_bit_eq_mask)
  also have "\<dots> = take_bit 4 (unat (ucast x :: 8 word))" by (simp add: unsigned_take_bit_eq)
  also have "unat (ucast x :: 8 word) = take_bit 8 (unat x)" by (simp add: unsigned_ucast_eq)
  also have "take_bit 4 (take_bit 8 (unat x)) = take_bit 4 (unat x)" by simp
  finally show ?thesis by (simp add: m take_bit_eq_mod)
qed

lemma unat_drop_bit_div: "unat (drop_bit k (w :: 'a::len word)) = unat w div 2 ^ k"
  by (subst unat_drop_bit_eq) (simp add: drop_bit_eq_div)

lemma hex_digit_lookup:
  "low_nibble_of_octet_to_hex (ucast (x :: 32 word)) = hex_digits ! (unat x mod 16)"
  by (simp only: low_nibble_of_octet_to_hex_def unat_low_nibble)

lemma hex_text_2: "hex_text 2 n = [hex_digits ! (n div 16 mod 16), hex_digits ! (n mod 16)]"
  by (simp add: numeral_2_eq_2)

lemma byte_to_hex_place:
  assumes "p + 2 \<le> length buf"
  shows "byte_to_hex (buf, p) d = Inr (place buf p (hex_text 2 (unat d)), p + 2)"
proof -
  define c1 where "c1 = hex_digits ! (unat d div 16 mod 16)"
  define c0 where "c0 = hex_digits ! (unat d mod 16)"
  have a: "low_nibble_of_octet_to_hex (ucast (drop_bit 4 d)) = c1"
    by (simp add: hex_digit_lookup unat_drop_bit_div c1_def)
  have b: "low_nibble_of_octet_to_hex (ucast d) = c0"
    by (simp add: hex_digit_lookup c0_def)
  have w1: "put_fwd c1 (buf, p) = Inr (place buf p [c1], p + 1)"
    using assms by (intro put_fwd_place) simp
  have w2: "put_fwd c0 (place buf p [c1], p + 1) = Inr (place (place buf p [c1]) (p + 1) [c0], p + 1 + 1)"
    using assms by (intro put_fwd_place) (simp add: length_place)
  have pp: "place (place buf p [c1]) (p + length [c1]) [c0] = place buf p ([c1] @ [c0])"
    using assms by (intro place_place_after) simp
  show ?thesis
    unfolding byte_to_hex_def a b w1 bind_err_Inr w2 hex_text_2 c1_def [symmetric] c0_def [symmetric]
    using pp by simp
qed

lemma length_hex_text [simp]: "length (hex_text w n) = w"
  by (induction w arbitrary: n) simp_all

lemma hex_text_add: "hex_text (a + b) n = hex_text a (n div 16 ^ b) @ hex_text b n"
proof (induction b arbitrary: n)
  case 0
  then show ?case by simp
next
  case (Suc b)
  have "n div 16 div 16 ^ b = n div 16 ^ Suc b" by (simp add: div_mult2_eq)
  then show ?case using Suc [of "n div 16"] by simp
qed

lemma hex_text_mod: "hex_text w (n mod 16 ^ w) = hex_text w n"
proof (induction w arbitrary: n)
  case 0
  then show ?case by simp
next
  case (Suc w)
  have m: "n mod (16 * 16 ^ w) = 16 * (n div 16 mod 16 ^ w) + n mod 16"
    by (rule mod_mult2_eq)
  have d: "(n mod 16 ^ Suc w) div 16 = n div 16 mod 16 ^ w" by (simp add: m)
  have r: "(n mod 16 ^ Suc w) mod 16 = n mod 16" by (simp add: m)
  show ?case
    using Suc [of "n div 16"] by (simp only: hex_text.simps d r)
qed

lemma unat_ucast_16_32: "unat (ucast (w :: 16 word) :: 32 word) = unat w"
proof -
  have "unat w < 2 ^ LENGTH(16)" by (rule unsigned_less)
  also have "\<dots> \<le> (2::nat) ^ LENGTH(32)" by simp
  finally have "take_bit LENGTH(32) (unat w) = unat w" by (rule take_bit_nat_eq_self)
  then show ?thesis by (simp only: unsigned_ucast_eq)
qed

lemma unat_ucast_8_32: "unat (ucast (w :: 8 word) :: 32 word) = unat w"
proof -
  have "unat w < 2 ^ LENGTH(8)" by (rule unsigned_less)
  also have "\<dots> \<le> (2::nat) ^ LENGTH(32)" by simp
  finally have "take_bit LENGTH(32) (unat w) = unat w" by (rule take_bit_nat_eq_self)
  then show ?thesis by (simp only: unsigned_ucast_eq)
qed

lemma word_to_hex_place:
  assumes "p + 4 \<le> length buf"
  shows "word_to_hex (buf, p) w = Inr (place buf p (hex_text 4 (unat w)), p + 4)"
proof -
  have u1: "unat (ucast (drop_bit 8 w) :: 32 word) = unat w div 16 ^ 2"
    by (simp only: unat_ucast_16_32 unat_drop_bit_div) simp
  have u0: "unat (ucast w :: 32 word) = unat w"
    by (rule unat_ucast_16_32)
  have w1: "byte_to_hex (buf, p) (ucast (drop_bit 8 w))
            = Inr (place buf p (hex_text 2 (unat w div 16 ^ 2)), p + 2)"
    using assms by (simp only: byte_to_hex_place u1)
  have w2: "byte_to_hex (place buf p (hex_text 2 (unat w div 16 ^ 2)), p + 2) (ucast w)
            = Inr (place (place buf p (hex_text 2 (unat w div 16 ^ 2))) (p + 2) (hex_text 2 (unat w)), p + 2 + 2)"
    using assms by (subst byte_to_hex_place) (simp_all add: length_place u0)
  have pp: "place (place buf p (hex_text 2 (unat w div 16 ^ 2))) (p + length (hex_text 2 (unat w div 16 ^ 2))) (hex_text 2 (unat w))
            = place buf p (hex_text 2 (unat w div 16 ^ 2) @ hex_text 2 (unat w))"
    using assms by (intro place_place_after) simp
  have h: "hex_text 4 (unat w) = hex_text 2 (unat w div 16 ^ 2) @ hex_text 2 (unat w)"
    using hex_text_add [of 2 2 "unat w"] by simp
  show ?thesis
    unfolding word_to_hex_def w1 bind_err_Inr w2 h
    using pp by simp
qed

lemma dword_to_hex_place:
  assumes "p + 8 \<le> length buf"
  shows "dword_to_hex (buf, p) d = Inr (place buf p (hex_text 8 (unat d)), p + 8)"
proof -
  have u1: "unat (ucast (drop_bit 16 d) :: 16 word) = unat d div 16 ^ 4 mod 16 ^ 4"
    by (simp add: unsigned_ucast_eq take_bit_eq_mod unat_drop_bit_div)
  have u0: "unat (ucast d :: 16 word) = unat d mod 16 ^ 4"
    by (simp add: unsigned_ucast_eq take_bit_eq_mod)
  have t1: "hex_text 4 (unat d div 16 ^ 4 mod 16 ^ 4) = hex_text 4 (unat d div 16 ^ 4)"
    by (rule hex_text_mod)
  have t0: "hex_text 4 (unat d mod 16 ^ 4) = hex_text 4 (unat d)"
    by (rule hex_text_mod)
  have w1: "word_to_hex (buf, p) (ucast (drop_bit 16 d))
            = Inr (place buf p (hex_text 4 (unat d div 16 ^ 4)), p + 4)"
    using assms by (simp only: word_to_hex_place u1 t1)
  have w2: "word_to_hex (place buf p (hex_text 4 (unat d div 16 ^ 4)), p + 4) (ucast d)
            = Inr (place (place buf p (hex_text 4 (unat d div 16 ^ 4))) (p + 4) (hex_text 4 (unat d)), p + 4 + 4)"
    using assms by (subst word_to_hex_place) (simp_all only: length_place length_hex_text u0 t0)
  have pp: "place (place buf p (hex_text 4 (unat d div 16 ^ 4))) (p + length (hex_text 4 (unat d div 16 ^ 4))) (hex_text 4 (unat d))
            = place buf p (hex_text 4 (unat d div 16 ^ 4) @ hex_text 4 (unat d))"
    using assms by (intro place_place_after) simp
  have h: "hex_text 8 (unat d) = hex_text 4 (unat d div 16 ^ 4) @ hex_text 4 (unat d)"
    using hex_text_add [of 4 4 "unat d"] by simp
  show ?thesis
    unfolding dword_to_hex_def w1 bind_err_Inr w2 h
    using pp by simp
qed

lemma length_hex_dump [simp]: "length (hex_dump bs) = 2 * length bs"
  by (induction bs) (simp_all add: hex_dump_def)

lemma hex_dump_Cons: "hex_dump (b # bs) = hex_text 2 (unat b) @ hex_dump bs"
  by (simp add: hex_dump_def)

lemma bytes_to_hexstr_loop_place:
  "i \<le> len \<Longrightarrow> len \<le> length ad \<Longrightarrow> p + 2 * (len - i) \<le> length buf \<Longrightarrow>
   bytes_to_hexstr_loop ad len i (buf, p)
     = Inr (place buf p (hex_dump (take (len - i) (drop i ad))), p + 2 * (len - i))"
proof (induction "len - i" arbitrary: i buf p)
  case 0
  then have "place buf p (hex_dump []) = buf" by (simp add: place_def hex_dump_def)
  with 0 show ?case by (subst bytes_to_hexstr_loop.simps) simp
next
  case (Suc k)
  then have lt: "i < len" by simp
  then have ia: "i < length ad" using Suc.prems(2) by simp
  define H where "H = hex_text 2 (unat (ad ! i))"
  define R where "R = hex_dump (take (len - Suc i) (drop (Suc i) ad))"
  have k: "k = len - Suc i" using Suc.hyps(2) by simp
  have room: "p + 2 \<le> length buf" using Suc.prems(3) lt by simp
  have w1: "byte_to_hex (buf, p) (ucast (ad ! i)) = Inr (place buf p H, p + 2)"
    using room by (simp only: byte_to_hex_place unat_ucast_8_32 H_def)
  have room': "p + 2 + 2 * (len - Suc i) \<le> length (place buf p H)"
    using Suc.prems(3) lt by (simp add: length_place H_def)
  have ih: "bytes_to_hexstr_loop ad len (Suc i) (place buf p H, p + 2)
            = Inr (place (place buf p H) (p + 2) R, p + 2 + 2 * (len - Suc i))"
    unfolding R_def using lt by (intro Suc.hyps(1) [OF k _ Suc.prems(2) room']) simp
  have pp: "place (place buf p H) (p + length H) R = place buf p (H @ R)"
    using Suc.prems(3) lt Suc.prems(2) by (intro place_place_after) (simp add: H_def R_def)
  have l: "len - i = Suc (len - Suc i)" using lt by simp
  have dr: "drop i ad = ad ! i # drop (Suc i) ad" using ia by (simp add: Cons_nth_drop_Suc)
  have hd: "hex_dump (take (len - i) (drop i ad)) = H @ R"
    by (simp add: l dr hex_dump_Cons H_def R_def)
  have step: "bytes_to_hexstr_loop ad len i (buf, p) = bytes_to_hexstr_loop ad len (Suc i) (place buf p H, p + 2)"
    using lt ia by (subst bytes_to_hexstr_loop.simps) (simp add: w1 bind_err_Inr)
  have fin: "p + 2 + 2 * (len - Suc i) = p + 2 * (len - i)" using lt by simp
  have lh: "p + length H = p + 2" by (simp add: H_def)
  show ?case
    unfolding step ih hd fin using pp by (simp only: lh)
qed

lemma bytes_to_hexstr_place:
  "len \<le> length bs \<Longrightarrow> p + 2 * len \<le> length buf \<Longrightarrow>
   bytes_to_hexstr (buf, p) (Some bs) len = Inr (place buf p (hex_dump (take len bs)), p + 2 * len)"
  using bytes_to_hexstr_loop_place [of 0 len bs p buf] by (simp add: bytes_to_hexstr_def)

lemma place_overwrite:
  "length s = length t \<Longrightarrow> i + length s \<le> length buf \<Longrightarrow> place (place buf i s) i t = place buf i t"
  by (simp add: place_def)

lemma poke_place_0:
  "length w < length buf \<Longrightarrow> poke (place buf 0 w) (length w) c = Inr (place buf 0 (w @ [c]))"
proof -
  assume h: "length w < length buf"
  then have "poke (place buf 0 w) (length w) c = Inr (place (place buf 0 w) (length w) [c])"
    by (intro poke_place) (simp add: length_place)
  moreover have "place (place buf 0 w) (0 + length w) [c] = place buf 0 (w @ [c])"
    using h by (intro place_place_after) simp
  ultimately show ?thesis by simp
qed


lemma length_wmem_alloc [simp]: "length (wmem_alloc scope n) = n"
  by (simp add: wmem_alloc_def)

lemma place_empty: "place buf 0 [] = buf"
  by (simp add: place_def)


lemma hex_text_chars: "set (hex_text w n) \<subseteq> set hex_digits"
proof (induction w arbitrary: n)
  case 0
  then show ?case by simp
next
  case (Suc w)
  have "n mod 16 < length hex_digits" by (simp add: hex_digits_def)
  then have "hex_digits ! (n mod 16) \<in> set hex_digits" by (rule nth_mem)
  then show ?case using Suc [of "n div 16"] by simp
qed

lemma hex_text_no_NUL: "NUL \<notin> set (hex_text w n)"
proof -
  have "NUL \<notin> set hex_digits" by (simp add: hex_digits_def NUL_def)
  then show ?thesis using hex_text_chars [of w n] by blast
qed

lemma hex_dump_no_NUL: "NUL \<notin> set (hex_dump bs)"
  by (induction bs) (simp_all add: hex_dump_def hex_text_no_NUL)


lemma not_bug_Inr [simp]: "\<not> is_dissector_bug (Inr x)"
  by (simp add: is_dissector_bug_def)

lemma not_bug_Overrun [simp]: "\<not> is_dissector_bug (Inl Overrun)" "\<not> is_dissector_bug (Inl OutOfBounds)"
  by (simp_all add: is_dissector_bug_def)

lemma is_bug_DissectorBug [simp]: "is_dissector_bug (Inl (DissectorBug msg))"
  by (simp add: is_dissector_bug_def)

lemma not_bug_bind:
  "\<not> is_dissector_bug m \<Longrightarrow> (\<And>x. \<not> is_dissector_bug (f x)) \<Longrightarrow> \<not> is_dissector_bug (bind_err m f)"
  by (cases m) (simp_all add: bind_err_def is_dissector_bug_def)

lemma not_bug_poke [simp]: "\<not> is_dissector_bug (poke buf i c)"
  by (simp add: poke_def)

lemma not_bug_put_fwd [simp]: "\<not> is_dissector_bug (put_fwd c st)"
  by (cases st) (simp add: put_fwd_def not_bug_bind)

lemma not_bug_byte_to_hex [simp]: "\<not> is_dissector_bug (byte_to_hex out d)"
  by (simp add: byte_to_hex_def not_bug_bind)

lemma not_bug_g_stpcpy [simp]: "\<not> is_dissector_bug (g_stpcpy dest src)"
  by (cases dest) (simp add: g_stpcpy_def)

lemma not_bug_bytes_to_hexstr_loop [simp]: "\<not> is_dissector_bug (bytes_to_hexstr_loop ad len i out)"
proof (induction ad len i out rule: bytes_to_hexstr_loop.induct)
  case (1 ad len i out)
  show ?case
    using 1 by (subst bytes_to_hexstr_loop.simps) (simp add: not_bug_bind)
qed

lemma not_bug_bytes_to_hexstr_punct_loop [simp]:
  "\<not> is_dissector_bug (bytes_to_hexstr_punct_loop ad len punct i out)"
proof (induction ad len punct i out rule: bytes_to_hexstr_punct_loop.induct)
  case (1 ad len punct i out)
  show ?case
    using 1 by (subst bytes_to_hexstr_punct_loop.simps) (simp add: not_bug_bind)
qed

lemma not_bug_bytes_to_hexstr [simp]: "\<not> is_dissector_bug (bytes_to_hexstr out (Some bs) len)"
  by (simp add: bytes_to_hexstr_def)

lemma not_bug_bytes_to_hexstr_punct [simp]:
  "\<not> is_dissector_bug (bytes_to_hexstr_punct out (Some bs) len punct)"
  by (simp add: bytes_to_hexstr_punct_def not_bug_bind)

lemma bytes_to_str_bug: "is_dissector_bug (bytes_to_str scope bd bd_len) = (bd = None)"
proof (cases bd)
  case None
  then show ?thesis by (simp add: bytes_to_str_def)
next
  case (Some bs)
  then show ?thesis
    by (simp add: bytes_to_str_def Let_def not_bug_bind)
qed

lemma bytestring_to_str_bug:
  "is_dissector_bug (bytestring_to_str scope ad len punct) = (ad = None \<and> len \<noteq> 0)"
proof (cases ad)
  case None
  then show ?thesis by (simp add: bytestring_to_str_def)
next
  case (Some bs)
  then show ?thesis
    using bytes_to_str_bug [of scope "Some bs" len]
    by (simp add: bytestring_to_str_def Let_def not_bug_bind)
qed

section \<open>What the GUID formatter stores\<close>

lemma put_fwd_place_0:
  assumes "length w < length buf"
  shows "put_fwd c (place buf 0 w, length w) = Inr (place buf 0 (w @ [c]), length (w @ [c]))"
proof -
  have "put_fwd c (place buf 0 w, length w) = Inr (place (place buf 0 w) (length w) [c], length w + 1)"
    using assms by (intro put_fwd_place) (simp add: length_place)
  moreover have "place (place buf 0 w) (0 + length w) [c] = place buf 0 (w @ [c])"
    using assms by (intro place_place_after) simp
  ultimately show ?thesis by simp
qed

lemma word_to_hex_place_0:
  assumes "length w + 4 \<le> length buf"
  shows "word_to_hex (place buf 0 w, length w) x
         = Inr (place buf 0 (w @ hex_text 4 (unat x)), length (w @ hex_text 4 (unat x)))"
proof -
  have "word_to_hex (place buf 0 w, length w) x
        = Inr (place (place buf 0 w) (length w) (hex_text 4 (unat x)), length w + 4)"
    using assms by (intro word_to_hex_place) (simp add: length_place)
  moreover have "place (place buf 0 w) (0 + length w) (hex_text 4 (unat x))
                 = place buf 0 (w @ hex_text 4 (unat x))"
    using assms by (intro place_place_after) simp
  ultimately show ?thesis by simp
qed

lemma bytes_to_hexstr_place_0:
  assumes "len \<le> length bs" and "length w + 2 * len \<le> length buf"
  shows "bytes_to_hexstr (place buf 0 w, length w) (Some bs) len
         = Inr (place buf 0 (w @ hex_dump (take len bs)), length (w @ hex_dump (take len bs)))"
proof -
  have "bytes_to_hexstr (place buf 0 w, length w) (Some bs) len
        = Inr (place (place buf 0 w) (length w) (hex_dump (take len bs)), length w + 2 * len)"
    using assms by (intro bytes_to_hexstr_place) (simp_all add: length_place)
  moreover have "place (place buf 0 w) (0 + length w) (hex_dump (take len bs))
                 = place buf 0 (w @ hex_dump (take len bs))"
    using assms by (intro place_place_after) simp
  ultimately show ?thesis using assms(1) by (simp add: min_def)
qed

lemma guid_to_str_buf_fits:
  assumes "GUID_STR_LEN \<le> sint buf_len" and "nat (sint buf_len) \<le> length buf"
      and "length (data4 guid) = 8"
  shows "guid_to_str_buf guid buf buf_len = Inr (place buf 0 (guid_text guid @ [NUL]))"
proof -
  define W1 where "W1 = hex_text 8 (unat (data1 guid))"
  define W2 where "W2 = W1 @ ''-''"
  define W3 where "W3 = W2 @ hex_text 4 (unat (data2 guid))"
  define W4 where "W4 = W3 @ ''-''"
  define W5 where "W5 = W4 @ hex_text 4 (unat (data3 guid))"
  define W6 where "W6 = W5 @ ''-''"
  define W7 where "W7 = W6 @ hex_dump (take 2 (data4 guid))"
  define W8 where "W8 = W7 @ ''-''"
  define W9 where "W9 = W8 @ hex_dump (take 6 (drop 2 (data4 guid)))"
  have room: "37 \<le> length buf" using assms(1,2) by (simp add: GUID_STR_LEN_def)
  have l: "length W1 = 8" "length W2 = 9" "length W3 = 13" "length W4 = 14" "length W5 = 18"
    "length W6 = 19" "length W7 = 23" "length W8 = 24" "length W9 = 36"
    using assms(3) by (simp_all add: W1_def W2_def W3_def W4_def W5_def W6_def W7_def W8_def W9_def)
  have s1: "dword_to_hex (buf, 0) (data1 guid) = Inr (place buf 0 W1, length W1)"
    using room dword_to_hex_place [of 0 buf "data1 guid"] by (simp add: W1_def)
  have s2: "put_fwd CHR ''-'' (place buf 0 W1, length W1) = Inr (place buf 0 W2, length W2)"
    unfolding W2_def using room by (intro put_fwd_place_0) (simp add: l)
  have s3: "word_to_hex (place buf 0 W2, length W2) (data2 guid) = Inr (place buf 0 W3, length W3)"
    unfolding W3_def using room by (intro word_to_hex_place_0) (simp add: l)
  have s4: "put_fwd CHR ''-'' (place buf 0 W3, length W3) = Inr (place buf 0 W4, length W4)"
    unfolding W4_def using room by (intro put_fwd_place_0) (simp add: l)
  have s5: "word_to_hex (place buf 0 W4, length W4) (data3 guid) = Inr (place buf 0 W5, length W5)"
    unfolding W5_def using room by (intro word_to_hex_place_0) (simp add: l)
  have s6: "put_fwd CHR ''-'' (place buf 0 W5, length W5) = Inr (place buf 0 W6, length W6)"
    unfolding W6_def using room by (intro put_fwd_place_0) (simp add: l)
  have s7: "bytes_to_hexstr (place buf 0 W6, length W6) (Some (data4 guid)) 2
            = Inr (place buf 0 W7, length W7)"
    unfolding W7_def using room assms(3) by (intro bytes_to_hexstr_place_0) (simp_all add: l)
  have s8: "put_fwd CHR ''-'' (place buf 0 W7, length W7) = Inr (place buf 0 W8, length W8)"
    unfolding W8_def using room by (intro put_fwd_place_0) (simp add: l)
  have s9: "bytes_to_hexstr (place buf 0 W8, length W8) (Some (drop 2 (data4 guid))) 6
            = Inr (place buf 0 W9, length W9)"
    unfolding W9_def using room assms(3) by (intro bytes_to_hexstr_place_0) (simp_all add: l)
  have s10: "poke (place buf 0 W9) (length W9) NUL = Inr (place buf 0 (W9 @ [NUL]))"
    using room by (intro poke_place_0) (simp add: l)
  have g: "guid_text guid = W9"
    using assms(3)
    by (simp add: guid_text_def W1_def W2_def W3_def W4_def W5_def W6_def W7_def W8_def W9_def)
  have nf: "\<not> sint buf_len < GUID_STR_LEN" using assms(1) by simp
  show ?thesis
    unfolding guid_to_str_buf_def g
    by (simp only: nf if_False s1 s2 s3 s4 s5 s6 s7 s8 s9 s10 bind_err_Inr fst_conv snd_conv)
qed

lemma guid_to_str_buf_short:
  assumes "sint buf_len < GUID_STR_LEN"
      and "0 \<le> sint buf_len" and "nat (sint buf_len) \<le> length buf"
  shows "guid_to_str_buf guid buf buf_len
         = Inr (if sint buf_len = 0 then buf
                else place buf 0 (take (nat (sint buf_len) - 1) BUF_TOO_SMALL_ERR @ [NUL]))"
proof -
  have g: "gsize_of_int buf_len = nat (sint buf_len)"
    using assms(2) by (rule gsize_of_int_nonneg)
  have "min (length BUF_TOO_SMALL_ERR + 1) (nat (sint buf_len)) \<le> length buf"
    using assms(3) by simp
  from g_strlcpy_place [OF this] show ?thesis
    using assms(1,2) by (simp add: guid_to_str_buf_def Let_def g bind_err_def)
qed

lemma length_guid_text: "length (data4 g) = 8 \<Longrightarrow> length (guid_text g) = 36"
  by (simp add: guid_text_def)

lemma guid_text_no_NUL: "NUL \<notin> set (guid_text g)"
proof -
  have "CHR ''-'' \<noteq> NUL" by (simp add: NUL_def)
  then show ?thesis
    by (simp add: guid_text_def hex_text_no_NUL hex_dump_no_NUL)
qed

lemma hex_text_4: "hex_text 4 n = hex_text 2 (n div 256) @ hex_text 2 n"
  using hex_text_add [of 2 2 n] by simp

lemma hex_text_8: "hex_text 8 n = hex_text 4 (n div 65536) @ hex_text 4 n"
  using hex_text_add [of 4 4 n] by simp

lemma guid_text_example:
  "guid_text \<lparr>data1 = 0x01020304, data2 = 0x0506, data3 = 0x0708,
              data4 = [0x09, 0x0A, 0x0B, 0x0C, 0x0D, 0x0E, 0x0F, 0x10]\<rparr>
   = ''01020304-0506-0708-090a-0b0c0d0e0f10''"
  by (simp add: guid_text_def hex_dump_def hex_digits_def hex_text_8 hex_text_4 hex_text_2)

section \<open>Bounded decimal formatting\<close>

text \<open>
  Claim C1, as amended. The threshold cascade \<open>guint32_to_str_buf_len\<close> gives the length
  of the canonical decimal text (1 at 9, 2 at 10 and 99, 3 at 100, 10 from 1000000000 on).
  Given a declared capacity \<open>buf_len\<close> of at least 0 that the buffer really has,
  \<open>guint32_to_str_buf\<close> stores the canonical decimal text and a terminator at the start
  of the buffer when \<open>buf_len\<close> is at least the digit count plus one. When it is smaller
  and at least 1, the buffer receives the first \<open>buf_len - 1\<close> characters of the sentinel
  (none at capacity 1) and a terminator, and no digit of the number. At capacity 0 nothing
  is stored and the buffer is left as it was. For 4294967295 capacity 11 gives the ten
  digits and capacity 10 the cut sentinel \<open>[Buffer t\<close>.
\<close>

theorem guint32_to_str_buf_correct:
  assumes "0 \<le> sint buf_len" and "nat (sint buf_len) \<le> length buf"
  shows "guint32_to_str_buf_len u = length (decimal_text (unat u)) \<and>
         guint32_to_str_buf u buf buf_len
           = Inr (if int (guint32_to_str_buf_len u + 1) \<le> sint buf_len
                  then place buf 0 (decimal_text (unat u) @ [NUL])
                  else if sint buf_len = 0 then buf
                  else place buf 0 (take (nat (sint buf_len) - 1) BUF_TOO_SMALL_ERR @ [NUL])) \<and>
         c_str (place buf 0 (decimal_text (unat u) @ [NUL])) = decimal_text (unat u) \<and>
         guint32_to_str_buf_len 9 = 1 \<and> guint32_to_str_buf_len 10 = 2 \<and>
         guint32_to_str_buf_len 99 = 2 \<and> guint32_to_str_buf_len 100 = 3 \<and>
         guint32_to_str_buf_len 999999999 = 9 \<and> guint32_to_str_buf_len 1000000000 = 10 \<and>
         guint32_to_str_buf_len 4294967295 = 10"
proof -
  have a: "guint32_to_str_buf_len u = length (decimal_text (unat u))"
    by (rule guint32_to_str_buf_len_digits)
  have b: "guint32_to_str_buf u buf buf_len
           = Inr (if int (guint32_to_str_buf_len u + 1) \<le> sint buf_len
                  then place buf 0 (decimal_text (unat u) @ [NUL])
                  else if sint buf_len = 0 then buf
                  else place buf 0 (take (nat (sint buf_len) - 1) BUF_TOO_SMALL_ERR @ [NUL]))"
  proof (cases "int (guint32_to_str_buf_len u + 1) \<le> sint buf_len")
    case True
    then show ?thesis
      using guint32_to_str_buf_fits [OF True assms(2)] by simp
  next
    case False
    then have "sint buf_len < int (guint32_to_str_buf_len u + 1)" by simp
    from guint32_to_str_buf_short [OF this assms] False show ?thesis by simp
  qed
  have c: "c_str (place buf 0 (decimal_text (unat u) @ [NUL])) = decimal_text (unat u)"
    by (rule c_str_place_0) (rule decimal_text_no_NUL)
  have d: "guint32_to_str_buf_len 9 = 1" "guint32_to_str_buf_len 10 = 2"
    "guint32_to_str_buf_len 99 = 2" "guint32_to_str_buf_len 100 = 3"
    "guint32_to_str_buf_len 999999999 = 9" "guint32_to_str_buf_len 1000000000 = 10"
    "guint32_to_str_buf_len 4294967295 = 10"
    by (simp_all add: guint32_to_str_buf_len_def)
  from a b c d show ?thesis by (intro conjI)
qed

theorem guint32_to_str_buf_correct_witness:
  "0 \<le> sint (11 :: gint) \<and> nat (sint (11 :: gint)) \<le> length ''xxxxxxxxxxx'' \<and>
   guint32_to_str_buf 4294967295 ''xxxxxxxxxxx'' 11 = Inr (''4294967295'' @ [NUL]) \<and>
   0 \<le> sint (10 :: gint) \<and> nat (sint (10 :: gint)) \<le> length ''xxxxxxxxxxx'' \<and>
   guint32_to_str_buf 4294967295 ''xxxxxxxxxxx'' 10 = Inr (''[Buffer t'' @ [NUL, CHR ''x''])"
proof -
  have t: "decimal_text 4294967295 = ''4294967295''"
    by (simp add: decimal_text.simps digit_char_def)
  have h1: "0 \<le> sint (11 :: gint)" by simp
  have h2: "nat (sint (11 :: gint)) \<le> length ''xxxxxxxxxxx''" by simp
  have h3: "0 \<le> sint (10 :: gint)" by simp
  have h4: "nat (sint (10 :: gint)) \<le> length ''xxxxxxxxxxx''" by simp
  show ?thesis
    using guint32_to_str_buf_correct [OF h1 h2, of 4294967295]
          guint32_to_str_buf_correct [OF h3 h4, of 4294967295]
    by (simp add: t place_def BUF_TOO_SMALL_ERR_def)
qed

text \<open>
  Claim C1 as stated fails at capacity 0, which is smaller than the 11 bytes that
  4294967295 needs: nothing is stored, the buffer keeps the string it held, and that string
  is not a cut of the sentinel. At capacity 1 only a terminator is stored.
\<close>

theorem guint32_to_str_buf_capacity_0_counterexample:
  "sint (0 :: gint) < int (guint32_to_str_buf_len 4294967295 + 1) \<and>
   guint32_to_str_buf 4294967295 ''abc'' 0 = Inr ''abc'' \<and>
   c_str ''abc'' = ''abc'' \<and>
   take (length ''abc'') BUF_TOO_SMALL_ERR = ''[Bu'' \<and>
   guint32_to_str_buf 4294967295 ''abc'' 1 = Inr (NUL # ''bc'') \<and>
   c_str (NUL # ''bc'') = []"
  by (simp add: guint32_to_str_buf_def guint32_to_str_buf_len_def Let_def gsize_of_int_def
                g_strlcpy_def bind_err_def c_str_def NUL_def BUF_TOO_SMALL_ERR_def)

section \<open>The unpunctuated hex dump\<close>



section \<open>The most negative duration\<close>

lemmas decimal_eval = decimal_text.simps digit_char_def printf_u_def printf_0u_def

text \<open>
  Claim C3. For the seconds \<open>-2147483648\<close> and fraction 0 the formatter appends a single
  \<open>-\<close> and then the decomposition of \<open>G_MAXUINT32 = 4294967295\<close>, which the source's
  comment takes for the absolute value. The magnitude \<open>2147483648\<close> decomposes into
  24855 days, 3 hours, 14 minutes and 8 seconds, which is not what is appended.
\<close>

theorem signed_time_min_value_output:
  "signed_time_secs_to_str_buf G_MININT32 0 False []
     = ''-49710 days, 6 hours, 28 minutes, 15 seconds'' \<and>
   sint G_MININT32 = - 2147483648 \<and>
   unsigned_time_secs_to_str_buf 2147483648 0 False []
     = ''24855 days, 3 hours, 14 minutes, 8 seconds'' \<and>
   signed_time_secs_to_str_buf G_MININT32 0 False []
     \<noteq> ''-'' @ unsigned_time_secs_to_str_buf 2147483648 0 False []"
  by (simp add: signed_time_secs_to_str_buf_def unsigned_time_secs_to_str_buf_def G_MININT32_def
       G_MAXUINT32_def Let_def PLURALIZE_def COMMA_def decimal_eval)

theorem signed_time_min_value_output_witness:
  "signed_time_secs_to_str_buf G_MININT32 0 False []
     \<noteq> ''-24855 days, 3 hours, 14 minutes, 8 seconds''"
  using signed_time_min_value_output by simp

section \<open>The length reported for an IPv6 address\<close>

lemma gsize_of_int_8_3: "gsize_of_int 8 = 8" "gsize_of_int 3 = 3"
  by (simp_all add: gsize_of_int_nonneg)

text \<open>
  Claim C4. For the loopback address, whose text \<open>::1\<close> has 3 characters, and a buffer of
  capacity 8, \<open>ip6_to_str_buf_with_pfx\<close> without a prefix stores the text and returns 2,
  where \<open>ip6_to_str_buf\<close> returns 3. With capacity 3 the text does not fit with its
  terminator: \<open>ip6_to_str_buf_with_pfx\<close> leaves the cut text \<open>::\<close> and returns 2, where
  \<open>ip6_to_str_buf\<close> stores the cut sentinel and returns the sentinel's length 18.
\<close>

theorem ip6_to_str_buf_with_pfx_loopback:
  "ip6_to_str_buf_with_pfx (\<lambda>a. ''::1'') loopback ''xxxxxxxx'' 8 None
     = Inr (''::1'' @ NUL # ''xxxx'', 2) \<and>
   ip6_to_str_buf (\<lambda>a. ''::1'') loopback ''xxxxxxxx'' 8
     = Inr (''::1'' @ NUL # ''xxxx'', 3) \<and>
   ip6_to_str_buf_with_pfx (\<lambda>a. ''::1'') loopback ''xxxxxxxx'' 3 None
     = Inr (''::'' @ NUL # ''xxxxx'', 2) \<and>
   ip6_to_str_buf (\<lambda>a. ''::1'') loopback ''xxxxxxxx'' 3
     = Inr (''[B'' @ NUL # ''xxxxx'', 18) \<and>
   length BUF_TOO_SMALL_ERR = 18"
  by (simp add: ip6_to_str_buf_with_pfx_def ip6_to_str_buf_def g_snprintf_def g_strlcpy_def
        gsize_of_int_8_3 bind_err_def Let_def BUF_TOO_SMALL_ERR_def)

section \<open>Termination within the declared capacity\<close>

text \<open>
  Claim C5, as amended. For every value and every declared capacity of at least 1 that
  the buffer really has, \<open>guint32_to_str_buf\<close> and \<open>guint64_to_str_buf\<close> return with a
  terminator among the first \<open>buf_len\<close> bytes of the buffer, whose length is unchanged; on
  a capacity failure the string in the buffer is the sentinel cut to at most
  \<open>buf_len - 1\<close> characters, otherwise it is the decimal text of the value. With
  capacity 0 nothing is stored and the buffer is left as it was.
\<close>

theorem guint_to_str_buf_terminated:
  assumes "1 \<le> sint buf_len" and "nat (sint buf_len) \<le> length buf"
  shows "(case guint32_to_str_buf u buf buf_len of
            Inl e \<Rightarrow> False
          | Inr buf' \<Rightarrow>
              terminated_within buf' (nat (sint buf_len)) \<and> length buf' = length buf \<and>
              c_str buf' = (if sint buf_len < int (guint32_to_str_buf_len u + 1)
                            then take (nat (sint buf_len) - 1) BUF_TOO_SMALL_ERR
                            else decimal_text (unat u))) \<and>
         (case guint64_to_str_buf w buf buf_len of
            Inl e \<Rightarrow> False
          | Inr buf' \<Rightarrow>
              terminated_within buf' (nat (sint buf_len)) \<and> length buf' = length buf \<and>
              c_str buf' = (if sint buf_len < int (guint64_to_str_buf_len w + 1)
                            then take (nat (sint buf_len) - 1) BUF_TOO_SMALL_ERR
                            else decimal_text (unat w))) \<and>
         guint32_to_str_buf u buf 0 = Inr buf \<and>
         guint64_to_str_buf w buf 0 = Inr buf"
proof -
  have nn: "0 \<le> sint buf_len" using assms(1) by simp
  have pos: "0 < nat (sint buf_len)" using assms(1) by simp
  have sent: "NUL \<notin> set (take (nat (sint buf_len) - 1) BUF_TOO_SMALL_ERR)"
  proof
    assume "NUL \<in> set (take (nat (sint buf_len) - 1) BUF_TOO_SMALL_ERR)"
    then have "NUL \<in> set BUF_TOO_SMALL_ERR" by (rule in_set_takeD)
    then show False by (simp add: BUF_TOO_SMALL_ERR_def NUL_def)
  qed
  have short: "terminated_within (place buf 0 (take (nat (sint buf_len) - 1) BUF_TOO_SMALL_ERR @ [NUL])) (nat (sint buf_len))
      \<and> length (place buf 0 (take (nat (sint buf_len) - 1) BUF_TOO_SMALL_ERR @ [NUL])) = length buf
      \<and> c_str (place buf 0 (take (nat (sint buf_len) - 1) BUF_TOO_SMALL_ERR @ [NUL]))
          = take (nat (sint buf_len) - 1) BUF_TOO_SMALL_ERR"
    using pos assms(2) sent
    by (intro conjI terminated_within_place length_place c_str_place_0) simp_all
  have a: "case guint32_to_str_buf u buf buf_len of
            Inl e \<Rightarrow> False
          | Inr buf' \<Rightarrow>
              terminated_within buf' (nat (sint buf_len)) \<and> length buf' = length buf \<and>
              c_str buf' = (if sint buf_len < int (guint32_to_str_buf_len u + 1)
                            then take (nat (sint buf_len) - 1) BUF_TOO_SMALL_ERR
                            else decimal_text (unat u))"
  proof (cases "sint buf_len < int (guint32_to_str_buf_len u + 1)")
    case True
    from guint32_to_str_buf_short [OF True nn assms(2)] True assms(1) short show ?thesis
      by simp
  next
    case False
    then have fits: "int (guint32_to_str_buf_len u + 1) \<le> sint buf_len" by simp
    then have room: "length (decimal_text (unat u)) < nat (sint buf_len)"
      by (simp add: guint32_to_str_buf_len_digits)
    have "terminated_within (place buf 0 (decimal_text (unat u) @ [NUL])) (nat (sint buf_len))
      \<and> length (place buf 0 (decimal_text (unat u) @ [NUL])) = length buf"
      using room assms(2) by (intro conjI terminated_within_place length_place) simp_all
    with guint32_to_str_buf_fits [OF fits assms(2)] False show ?thesis
      by (simp add: c_str_place_0 [OF decimal_text_no_NUL])
  qed
  have b: "case guint64_to_str_buf w buf buf_len of
            Inl e \<Rightarrow> False
          | Inr buf' \<Rightarrow>
              terminated_within buf' (nat (sint buf_len)) \<and> length buf' = length buf \<and>
              c_str buf' = (if sint buf_len < int (guint64_to_str_buf_len w + 1)
                            then take (nat (sint buf_len) - 1) BUF_TOO_SMALL_ERR
                            else decimal_text (unat w))"
  proof (cases "sint buf_len < int (guint64_to_str_buf_len w + 1)")
    case True
    from guint64_to_str_buf_short [OF True nn assms(2)] True assms(1) short show ?thesis
      by simp
  next
    case False
    then have fits: "int (guint64_to_str_buf_len w + 1) \<le> sint buf_len" by simp
    then have room: "length (decimal_text (unat w)) < nat (sint buf_len)"
      by (simp add: guint64_to_str_buf_len_digits)
    have "terminated_within (place buf 0 (decimal_text (unat w) @ [NUL])) (nat (sint buf_len))
      \<and> length (place buf 0 (decimal_text (unat w) @ [NUL])) = length buf"
      using room assms(2) by (intro conjI terminated_within_place length_place) simp_all
    with guint64_to_str_buf_fits [OF fits assms(2)] False show ?thesis
      by (simp add: c_str_place_0 [OF decimal_text_no_NUL])
  qed
  have c: "guint32_to_str_buf u buf 0 = Inr buf"
    by (simp add: guint32_to_str_buf_def Let_def gsize_of_int_def g_strlcpy_def bind_err_def)
  have d: "guint64_to_str_buf w buf 0 = Inr buf"
    by (simp add: guint64_to_str_buf_def Let_def gsize_of_int_def g_strlcpy_def bind_err_def)
  from a b c d show ?thesis by (intro conjI)
qed

theorem guint_to_str_buf_terminated_witness:
  "1 \<le> sint (5 :: gint) \<and> nat (sint (5 :: gint)) \<le> length ''xxxxxxxx'' \<and>
   (case guint32_to_str_buf 4294967295 ''xxxxxxxx'' 5 of
      Inl e \<Rightarrow> False
    | Inr buf' \<Rightarrow> terminated_within buf' 5 \<and> length buf' = length ''xxxxxxxx'' \<and> c_str buf' = ''[Buf'') \<and>
   (case guint64_to_str_buf 1234 ''xxxxxxxx'' 5 of
      Inl e \<Rightarrow> False
    | Inr buf' \<Rightarrow> terminated_within buf' 5 \<and> length buf' = length ''xxxxxxxx'' \<and> c_str buf' = ''1234'')"
proof -
  have t: "decimal_text 1234 = ''1234''"
    by (simp add: decimal_text.simps digit_char_def)
  have h1: "1 \<le> sint (5 :: gint)" by simp
  have h2: "nat (sint (5 :: gint)) \<le> length ''xxxxxxxx''" by simp
  show ?thesis
    using guint_to_str_buf_terminated [OF h1 h2, of 4294967295 1234]
    by (simp add: t BUF_TOO_SMALL_ERR_def guint32_to_str_buf_len_def guint64_to_str_buf_len_def
             cong: sum.case_cong)
qed

text \<open>
  Claim C5 as stated fails at capacity 0: nothing is stored, so a buffer without a
  terminator stays without one, and its content is not a prefix of the sentinel.
\<close>

theorem guint_to_str_buf_capacity_0_counterexample:
  "guint32_to_str_buf 7 ''abc'' 0 = Inr ''abc'' \<and>
   guint64_to_str_buf 7 ''abc'' 0 = Inr ''abc'' \<and>
   \<not> terminated_within ''abc'' 0 \<and> NUL \<notin> set ''abc'' \<and>
   c_str ''abc'' = ''abc'' \<and> take (length ''abc'') BUF_TOO_SMALL_ERR \<noteq> ''abc''"
  by (simp add: guint32_to_str_buf_def guint64_to_str_buf_def Let_def gsize_of_int_def
                g_strlcpy_def bind_err_def terminated_within_def NUL_def c_str_def
                BUF_TOO_SMALL_ERR_def guint32_to_str_buf_len_def guint64_to_str_buf_len_def)

section \<open>Empty and null byte sequences\<close>

text \<open>
  Claim C6, as amended. For every scope and punctuation character, \<open>bytestring_to_str\<close>
  with declared length 0 returns the empty string, whatever the pointer, and it raises the
  fatal report exactly when the pointer is null and the declared length is not 0.
  \<open>bytes_to_str\<close> with a pointer that is not null and declared length 0 returns the empty
  string, and it raises the fatal report exactly when the pointer is null, whatever the
  declared length.
\<close>

theorem hex_dump_null_and_empty:
  "bytestring_to_str scope ad 0 punct = Inr [NUL] \<and> c_str [NUL] = [] \<and>
   is_dissector_bug (bytestring_to_str scope ad len punct) = (ad = None \<and> len \<noteq> 0) \<and>
   (case bytes_to_str scope (Some bs) 0 of Inl e \<Rightarrow> False | Inr r \<Rightarrow> c_str r = []) \<and>
   is_dissector_bug (bytes_to_str scope bd bd_len) = (bd = None)"
proof -
  have a: "bytestring_to_str scope ad 0 punct = Inr [NUL]"
    by (simp add: bytestring_to_str_def wmem_strdup_def)
  have b: "c_str [NUL] = []" by (simp add: c_str_def)
  have "bytes_to_str scope (Some bs) 0 = Inr (place (wmem_alloc scope 76) 0 ([] @ [NUL]))"
    using poke_place_0 [of "[]" "wmem_alloc scope 76" NUL]
    by (simp add: bytes_to_str_def MAX_BYTE_STR_LEN_def place_empty)
  then have c: "case bytes_to_str scope (Some bs) 0 of Inl e \<Rightarrow> False | Inr r \<Rightarrow> c_str r = []"
    using c_str_place_0 [of "[]" "wmem_alloc scope 76"] by simp
  from a b c bytestring_to_str_bug [of scope ad len punct] bytes_to_str_bug [of scope bd bd_len]
  show ?thesis by (intro conjI)
qed

text \<open>
  Claim C6 as stated fails for \<open>bytes_to_str\<close> with a null pointer and declared length
  0: the null check comes first and the fatal report is raised, where
  \<open>bytestring_to_str\<close> returns the empty string.
\<close>

theorem bytes_to_str_null_length_0_counterexample:
  "bytes_to_str (\<lambda>i. CHR ''x'') None 0 = Inl (DissectorBug ''Null pointer passed to bytes_to_str()'') \<and>
   is_dissector_bug (bytes_to_str (\<lambda>i. CHR ''x'') None 0) \<and>
   bytestring_to_str (\<lambda>i. CHR ''x'') None 0 NUL = Inr [NUL]"
  by (simp add: bytes_to_str_def bytestring_to_str_def wmem_strdup_def is_dissector_bug_def)

section \<open>The backward writer produces the canonical decimal text\<close>

text \<open>
  Claim C7. Seeded at an end position \<open>p\<close> with room for the digits before it,
  \<open>uint_to_str_back\<close> and \<open>uint64_to_str_back\<close> return, and the characters from the
  returned position up to \<open>p\<close> are the canonical decimal text of the value; a strict decimal
  parser reads that text back as the value. For the value 0 the writer stores the single
  character \<open>0\<close>.
\<close>

theorem backward_write_roundtrip:
  fixes v :: "32 word" and w :: "64 word"
  assumes "length (decimal_text (unat v)) \<le> p" and "p \<le> length buf"
      and "length (decimal_text (unat w)) \<le> q" and "q \<le> length buf64"
  shows "(case uint_to_str_back (buf, p) v of
            Inl e \<Rightarrow> False
          | Inr (buf', p') \<Rightarrow>
              read_between buf' p' p = decimal_text (unat v) \<and>
              parse_decimal (read_between buf' p' p) = Some (unat v)) \<and>
         (case uint64_to_str_back (buf64, q) w of
            Inl e \<Rightarrow> False
          | Inr (buf', q') \<Rightarrow>
              read_between buf' q' q = decimal_text (unat w) \<and>
              parse_decimal (read_between buf' q' q) = Some (unat w)) \<and>
         uint_to_str_back (buf, p) 0 = Inr (buf[p - 1 := CHR ''0''], p - 1) \<and>
         uint64_to_str_back (buf64, q) 0 = Inr (buf64[q - 1 := CHR ''0''], q - 1)"
proof -
  have p0: "0 < p" using assms(1) decimal_text_nonempty [of "unat v"]
    by (cases "decimal_text (unat v)") auto
  have q0: "0 < q" using assms(3) decimal_text_nonempty [of "unat w"]
    by (cases "decimal_text (unat w)") auto
  have a: "case uint_to_str_back (buf, p) v of
            Inl e \<Rightarrow> False
          | Inr (buf', p') \<Rightarrow>
              read_between buf' p' p = decimal_text (unat v) \<and>
              parse_decimal (read_between buf' p' p) = Some (unat v)"
    using assms(1,2)
    by (simp add: uint_to_str_back_place read_between_place parse_decimal_text)
  have b: "case uint64_to_str_back (buf64, q) w of
            Inl e \<Rightarrow> False
          | Inr (buf', q') \<Rightarrow>
              read_between buf' q' q = decimal_text (unat w) \<and>
              parse_decimal (read_between buf' q' q) = Some (unat w)"
    using assms(3,4)
    by (simp add: uint64_to_str_back_place read_between_place parse_decimal_text)
  have c: "uint_to_str_back (buf, p) 0 = Inr (buf[p - 1 := CHR ''0''], p - 1)"
    using p0 assms(2)
    by (simp add: uint_to_str_back_def put_back_def poke_def bind_err_def
                  uint_to_str_back_loop.simps [of _ 0])
  have d: "uint64_to_str_back (buf64, q) 0 = Inr (buf64[q - 1 := CHR ''0''], q - 1)"
    using q0 assms(4)
    by (simp add: uint64_to_str_back_def put_back_def poke_def bind_err_def
                  uint64_to_str_back_loop.simps [of _ 0])
  from a b c d show ?thesis by (intro conjI)
qed

theorem backward_write_roundtrip_witness:
  "length (decimal_text (unat (4294967295 :: 32 word))) \<le> 10 \<and>
   10 \<le> length (replicate 10 CHR ''x'') \<and>
   length (decimal_text (unat (18446744073709551615 :: 64 word))) \<le> 20 \<and>
   20 \<le> length (replicate 20 CHR ''x'') \<and>
   (case uint_to_str_back (replicate 10 CHR ''x'', 10) 4294967295 of
      Inl e \<Rightarrow> False
    | Inr (buf', p') \<Rightarrow>
        read_between buf' p' 10 = ''4294967295'' \<and>
        parse_decimal (read_between buf' p' 10) = Some 4294967295) \<and>
   (case uint64_to_str_back (replicate 20 CHR ''x'', 20) 18446744073709551615 of
      Inl e \<Rightarrow> False
    | Inr (buf', q') \<Rightarrow>
        read_between buf' q' 20 = ''18446744073709551615'' \<and>
        parse_decimal (read_between buf' q' 20) = Some 18446744073709551615) \<and>
   uint_to_str_back (replicate 10 CHR ''x'', 10) 0 = Inr (''xxxxxxxxx0'', 9) \<and>
   uint64_to_str_back (replicate 20 CHR ''x'', 20) 0 = Inr (''xxxxxxxxxxxxxxxxxxx0'', 19)"
proof -
  have t1: "decimal_text 4294967295 = ''4294967295''"
    by (simp add: decimal_text.simps digit_char_def)
  have t2: "decimal_text 18446744073709551615 = ''18446744073709551615''"
    by (simp add: decimal_text.simps digit_char_def)
  have h1: "length (decimal_text (unat (4294967295 :: 32 word))) \<le> 10" by (simp add: t1)
  have h2: "10 \<le> length (replicate 10 CHR ''x'')" by simp
  have h3: "length (decimal_text (unat (18446744073709551615 :: 64 word))) \<le> 20"
    by (simp add: t2)
  have h4: "20 \<le> length (replicate 20 CHR ''x'')" by simp
  have r10: "replicate 10 CHR ''x'' = ''xxxxxxxxxx''" by (simp add: numeral_eq_Suc)
  have r20: "replicate 20 CHR ''x'' = ''xxxxxxxxxxxxxxxxxxxx''" by (simp add: numeral_eq_Suc)
  show ?thesis
    using backward_write_roundtrip [OF h1 h2 h3 h4]
    by (simp add: t1 t2 r10 r20 cong: sum.case_cong)
qed

section \<open>The canonical text of a GUID\<close>

text \<open>
  Claim C8, as amended. Given a declared capacity of at least 0 that the buffer really has,
  \<open>guid_to_str_buf\<close> stores the 36 characters of the canonical text (8, 4, 4, 4 and 12
  lowercase hex digits separated by hyphens) and a terminator when the capacity is at least
  37. When the capacity is below 37 and at least 1, the buffer receives the first
  \<open>buf_len - 1\<close> characters of the sentinel (all 18 from capacity 19 on, none at capacity
  1) and a terminator. At capacity 0 nothing is stored and the buffer is left as it was.
\<close>

theorem guid_to_str_buf_correct:
  assumes "0 \<le> sint buf_len" and "nat (sint buf_len) \<le> length buf"
      and "length (data4 guid) = 8"
  shows "guid_to_str_buf guid buf buf_len
           = Inr (if 37 \<le> sint buf_len
                  then place buf 0 (guid_text guid @ [NUL])
                  else if sint buf_len = 0 then buf
                  else place buf 0 (take (nat (sint buf_len) - 1) BUF_TOO_SMALL_ERR @ [NUL])) \<and>
         length (guid_text guid) = 36 \<and>
         c_str (place buf 0 (guid_text guid @ [NUL])) = guid_text guid"
proof -
  have a: "guid_to_str_buf guid buf buf_len
           = Inr (if 37 \<le> sint buf_len
                  then place buf 0 (guid_text guid @ [NUL])
                  else if sint buf_len = 0 then buf
                  else place buf 0 (take (nat (sint buf_len) - 1) BUF_TOO_SMALL_ERR @ [NUL]))"
  proof (cases "37 \<le> sint buf_len")
    case True
    then have "GUID_STR_LEN \<le> sint buf_len" by (simp add: GUID_STR_LEN_def)
    from guid_to_str_buf_fits [OF this assms(2,3)] True show ?thesis by simp
  next
    case False
    then have "sint buf_len < GUID_STR_LEN" by (simp add: GUID_STR_LEN_def)
    from guid_to_str_buf_short [OF this assms(1,2)] False show ?thesis by simp
  qed
  have b: "length (guid_text guid) = 36" using assms(3) by (rule length_guid_text)
  have c: "c_str (place buf 0 (guid_text guid @ [NUL])) = guid_text guid"
    by (rule c_str_place_0) (rule guid_text_no_NUL)
  from a b c show ?thesis by (intro conjI)
qed

theorem guid_to_str_buf_correct_witness:
  "0 \<le> sint (37 :: gint) \<and> nat (sint (37 :: gint)) \<le> length ''xxxxxxxxxxxxxxxxxxxxxxxxxxxxxxxxxxxxx'' \<and>
   0 \<le> sint (36 :: gint) \<and> nat (sint (36 :: gint)) \<le> length ''xxxxxxxxxxxxxxxxxxxxxxxxxxxxxxxxxxxxx'' \<and>
   length [0x09, 0x0A, 0x0B, 0x0C, 0x0D, 0x0E, 0x0F, 0x10 :: 8 word] = 8 \<and>
   guid_to_str_buf \<lparr>data1 = 0x01020304, data2 = 0x0506, data3 = 0x0708,
                     data4 = [0x09, 0x0A, 0x0B, 0x0C, 0x0D, 0x0E, 0x0F, 0x10]\<rparr>
     ''xxxxxxxxxxxxxxxxxxxxxxxxxxxxxxxxxxxxx'' 37
     = Inr (''01020304-0506-0708-090a-0b0c0d0e0f10'' @ [NUL]) \<and>
   guid_to_str_buf \<lparr>data1 = 0x01020304, data2 = 0x0506, data3 = 0x0708,
                     data4 = [0x09, 0x0A, 0x0B, 0x0C, 0x0D, 0x0E, 0x0F, 0x10]\<rparr>
     ''xxxxxxxxxxxxxxxxxxxxxxxxxxxxxxxxxxxxx'' 36
     = Inr (''[Buffer too small]'' @ NUL # ''xxxxxxxxxxxxxxxxxx'')"
proof -
  define g where "g = \<lparr>data1 = 0x01020304, data2 = 0x0506, data3 = 0x0708,
                     data4 = [0x09, 0x0A, 0x0B, 0x0C, 0x0D, 0x0E, 0x0F, 0x10 :: 8 word]\<rparr>"
  have h1: "0 \<le> sint (37 :: gint)" by simp
  have h2: "nat (sint (37 :: gint)) \<le> length ''xxxxxxxxxxxxxxxxxxxxxxxxxxxxxxxxxxxxx''" by simp
  have h3: "0 \<le> sint (36 :: gint)" by simp
  have h4: "nat (sint (36 :: gint)) \<le> length ''xxxxxxxxxxxxxxxxxxxxxxxxxxxxxxxxxxxxx''" by simp
  have h5: "length (data4 g) = 8" by (simp add: g_def)
  have t: "guid_text g = ''01020304-0506-0708-090a-0b0c0d0e0f10''"
    unfolding g_def by (rule guid_text_example)
  show ?thesis
    using guid_to_str_buf_correct [OF h1 h2 h5] guid_to_str_buf_correct [OF h3 h4 h5]
    by (simp add: t place_def BUF_TOO_SMALL_ERR_def g_def [symmetric])
qed

text \<open>
  Claim C8 as stated fails at capacity 0, which is below 37: nothing is stored, the buffer
  keeps the string it held, and that string is not a cut of the sentinel. At capacity 1
  only a terminator is stored.
\<close>

theorem guid_to_str_buf_capacity_0_counterexample:
  "sint (0 :: gint) < 37 \<and>
   guid_to_str_buf \<lparr>data1 = 0x01020304, data2 = 0x0506, data3 = 0x0708,
                     data4 = [0x09, 0x0A, 0x0B, 0x0C, 0x0D, 0x0E, 0x0F, 0x10]\<rparr> ''abc'' 0
     = Inr ''abc'' \<and>
   c_str ''abc'' = ''abc'' \<and>
   take (length ''abc'') BUF_TOO_SMALL_ERR = ''[Bu'' \<and>
   guid_to_str_buf \<lparr>data1 = 0x01020304, data2 = 0x0506, data3 = 0x0708,
                     data4 = [0x09, 0x0A, 0x0B, 0x0C, 0x0D, 0x0E, 0x0F, 0x10]\<rparr> ''abc'' 1
     = Inr (NUL # ''bc'') \<and>
   c_str (NUL # ''bc'') = []"
  by (simp add: guid_to_str_buf_def GUID_STR_LEN_def gsize_of_int_def
                g_strlcpy_def bind_err_def c_str_def NUL_def BUF_TOO_SMALL_ERR_def)

section \<open>The bit-field picture\<close>

text \<open>
  Claim C9. For a width of at least 1, \<open>decode_bits_in_field\<close> returns, and the string it
  returns is the bit-field picture for the offset taken modulo 8 and the width capped at
  64: a dot for every position before the field, the field's bits most significant first
  (the first selected by the mask at bit position width - 1), dots up to the next multiple
  of 8, with a space before every nonzero multiple of 4 and a second one before every
  nonzero multiple of 8. For offset 3, width 5 and value 10110 the picture is
  \<open>...1 0110\<close>.
\<close>

theorem decode_bits_in_field_text:
  assumes "1 \<le> sint no_of_bits"
  shows "case decode_bits_in_field bit_offset no_of_bits v of
           Inl e \<Rightarrow> False
         | Inr str \<Rightarrow>
             c_str str = bitfield_text (unat (bit_offset AND 7)) (nat (min 64 (sint no_of_bits))) v"
  using decode_bits_in_field_fresh [OF assms, of bit_offset v]
  by (simp add: c_str_fresh [OF bitfield_text_no_NUL])

theorem decode_bits_in_field_text_witness:
  "1 \<le> sint (5 :: gint) \<and>
   (case decode_bits_in_field 3 5 22 of
      Inl e \<Rightarrow> False
    | Inr str \<Rightarrow> c_str str = ''...1 0110'')"
proof -
  have h: "1 \<le> sint (5 :: gint)" by simp
  have o: "unat ((3 :: 32 word) AND 7) = 3" by simp
  have w: "nat (min 64 (sint (5 :: gint))) = 5" by simp
  show ?thesis
    using decode_bits_in_field_text [OF h, of 3 22] h
    by (simp only: o w bitfield_text_example simp_thms)
qed

section \<open>The width must be at least 1\<close>

text \<open>
  Claim C10. The initial mask of \<open>decode_bits_in_field\<close> is the constant 1 shifted left by
  \<open>min 64 no_of_bits - 1\<close>. When \<open>no_of_bits\<close> is at least 1 that amount is between 0 and
  63, the shift is defined, and the function returns the bit-field picture. When
  \<open>no_of_bits\<close> is at most 0 the function fails at that shift, whose amount
  \<open>no_of_bits - 1\<close> is negative, and at nothing else. The shift by the amount the
  function uses is undefined exactly when \<open>no_of_bits\<close> is at most 0.
\<close>

theorem decode_bits_in_field_precondition:
  "decode_bits_in_field bit_offset no_of_bits v
     = (if 1 \<le> sint no_of_bits
        then Inr (fresh 320 (bitfield_text (unat (bit_offset AND 7))
                               (nat (min 64 (sint no_of_bits))) v))
        else Inl (UndefinedShift (sint no_of_bits - 1))) \<and>
   (case decode_bits_in_field bit_offset no_of_bits v of
      Inl e \<Rightarrow> e = UndefinedShift (min 64 (sint no_of_bits) - 1) \<and>
               min 64 (sint no_of_bits) - 1 < 0 \<and> sint no_of_bits \<le> 0
    | Inr str \<Rightarrow> 0 \<le> min 64 (sint no_of_bits) - 1 \<and> min 64 (sint no_of_bits) - 1 \<le> 63 \<and>
                 1 \<le> sint no_of_bits) \<and>
   isl (shift_left_u64 1 (min 64 (sint no_of_bits) - 1)) = (sint no_of_bits \<le> 0)"
proof (cases "1 \<le> sint no_of_bits")
  case True
  have "isl (shift_left_u64 1 (min 64 (sint no_of_bits) - 1)) = (sint no_of_bits \<le> 0)"
    using True by (simp add: shift_left_u64_def)
  then show ?thesis
    using decode_bits_in_field_fresh [OF True, of bit_offset v] True by simp
next
  case False
  then have le: "sint no_of_bits \<le> 0" by simp
  have "isl (shift_left_u64 1 (min 64 (sint no_of_bits) - 1)) = (sint no_of_bits \<le> 0)"
    using le by (simp add: shift_left_u64_def)
  then show ?thesis
    using decode_bits_in_field_undefined [OF le, of bit_offset v] le by simp
qed

end
